theory Spec2Isabelle
  imports Complex_Main "HOL-Library.Word" "HOL-Library.Sublist"
begin

unbundle bit_operations_syntax

section \<open>Secure indexes: the Bloom filter, the key schedule, the builder and the server\<close>

text \<open>
  A shallow embedding of the Go sources of the secure-index repository: package
  \<open>bloomFilter\<close>, package \<open>cryptoUtils\<close>, the index builder (\<open>main\<close> of the build
  script with its CSV helpers) and the search server (\<open>ReadSecureIndexFile\<close>,
  \<open>handleConnection\<close>).

  Conventions of the embedding.
  \<^item> A Go \<open>[]byte\<close> is a list of 8-bit words, a Go \<open>string\<close> is a \<open>string\<close> (a list of
    8-bit characters), a \<open>[]bool\<close> is a \<open>bool list\<close>, \<open>uint64\<close> is \<open>64 word\<close>.
  \<^item> Go's \<open>int\<close> holds lengths and small counts here; it is an unbounded \<open>int\<close> in
    the model (no length of a slice in memory reaches \<open>2 ^ 63\<close>).
  \<^item> A \<open>float64\<close> is the real number it denotes. The arithmetic of \<open>Create\<close> rounds
    every result to the nearest \<open>float64\<close>; \<open>math.Log2\<close> in \<open>GenerateHashKeys\<close> is the
    logarithm to base 2 of the reals.
  \<^item> A run-time panic, the \<open>os.Exit(1)\<close> of \<open>errorCheck\<close> and a returned non-nil
    \<open>error\<close> are values of the type \<open>failure\<close>; a function that can fail returns
    \<open>failure + 'a\<close>.
  \<^item> HMAC-SHA-256 (\<open>createHMAC\<close>) is a parameter \<open>H\<close> of the functions that call it:
    \<open>H m k\<close> is the tag of message \<open>m\<close> under key \<open>k\<close>.
  \<^item> The random source is a tape of bytes that is consumed from the front.
\<close>

type_synonym byte = "8 word"

datatype go_error =
    RandReadError            \<comment> \<open>the error value returned by \<open>rand.Read\<close>\<close>
  | CsvBareQuote             \<comment> \<open>encoding/csv: bare quote in a non-quoted field\<close>
  | CsvFieldCount            \<comment> \<open>encoding/csv: wrong number of fields\<close>
  | CsvQuotedNotModelled     \<comment> \<open>a field that starts with a quote: outside this model\<close>
  | HexErrLength             \<comment> \<open>encoding/hex: odd length hex string\<close>
  | HexInvalidByte char      \<comment> \<open>encoding/hex: invalid byte\<close>
  | OpenError                \<comment> \<open>the file cannot be opened, created or read\<close>

datatype failure =
    PanicDivideByZero        \<comment> \<open>runtime error: integer divide by zero\<close>
  | PanicIndexOutOfRange     \<comment> \<open>runtime error: index out of range\<close>
  | PanicMakeSliceLen        \<comment> \<open>runtime error: makeslice: len out of range\<close>
  | Exit string              \<comment> \<open>\<open>errorCheck\<close>: the message on stderr, then \<open>os.Exit(1)\<close>\<close>
  | Err go_error             \<comment> \<open>a non-nil \<open>error\<close> returned to the caller\<close>

definition errorCheck :: "string \<Rightarrow> failure + 'a \<Rightarrow> failure + 'a" where
  \<comment> \<open>\<open>if err != nil { print msg; os.Exit(1) }\<close>; a panic passes through\<close>
  "errorCheck msg r = (case r of Inl (Err e) \<Rightarrow> Inl (Exit msg) | _ \<Rightarrow> r)"

subsection \<open>encoding/binary.Uvarint\<close>

text \<open>
  \<open>findPositions\<close> calls \<open>binary.Uvarint\<close> of the Go standard library and drops its
  second result. The library function is not part of the repository; it is written
  here as the library has it: a loop over the bytes with the accumulator \<open>x\<close> and the
  shift \<open>s\<close>, returning value \<open>0\<close> with a non-positive count when the buffer ends
  before a byte below \<open>0x80\<close> (count \<open>0\<close>) and when the value does not fit 64 bits
  (count \<open>-(i + 1)\<close>).
\<close>

fun uvarint_loop :: "nat \<Rightarrow> 64 word \<Rightarrow> nat \<Rightarrow> byte list \<Rightarrow> 64 word \<times> int" where
  "uvarint_loop i x s [] = (0, 0)"
| "uvarint_loop i x s (b # buf) =
     (if i = 10 then (0, - (int i + 1))
      else if b < 0x80 then
        (if i = 9 \<and> b > 1 then (0, - (int i + 1))
         else (x OR push_bit s (ucast b), int i + 1))
      else uvarint_loop (i + 1) (x OR push_bit s (ucast (b AND 0x7f))) (s + 7) buf)"

definition Uvarint :: "byte list \<Rightarrow> 64 word \<times> int" where
  "Uvarint buf = uvarint_loop 0 0 0 buf"

subsection \<open>Package bloomFilter\<close>

record BloomFilter =
  BitArray :: "bool list"

definition math_Round :: "real \<Rightarrow> int" where
  \<comment> \<open>\<open>math.Round\<close>: the nearest integer, halves away from zero\<close>
  "math_Round x = (if 0 \<le> x then \<lfloor>x + 1 / 2\<rfloor> else \<lceil>x - 1 / 2\<rceil>)"

text \<open>
  \<open>Create\<close> computes in \<open>float64\<close>. A \<open>float64\<close> value is the real number it denotes, and
  every operation returns the exact result rounded to the nearest value with a 53-bit
  significand, ties to even (\<open>float64\<close> below; the exponent range is not bounded, so
  overflow and underflow are not modelled). \<open>math.Log(2)\<close> is the \<open>float64\<close> nearest
  to \<open>ln 2\<close>.
\<close>

definition rne :: "real \<Rightarrow> int" where
  \<comment> \<open>the nearest integer, ties to even\<close>
  "rne q =
     (let f = \<lfloor>q\<rfloor>
      in if q - of_int f < 1 / 2 then f
         else if 1 / 2 < q - of_int f then f + 1
         else if even f then f else f + 1)"

definition float64 :: "real \<Rightarrow> real" where
  \<comment> \<open>rounding to 53 significant bits: \<open>ulp\<close> is the weight of the last bit\<close>
  "float64 x =
     (if x = 0 then 0
      else (let e = \<lfloor>log 2 \<bar>x\<bar>\<rfloor>; ulp = 2 powr real_of_int (e - 52)
            in real_of_int (rne (x / ulp)) * ulp))"

definition math_Log :: "real \<Rightarrow> real" where
  "math_Log x = float64 (ln x)"

definition filter_size :: "int \<Rightarrow> int \<Rightarrow> real \<Rightarrow> real" where
  \<comment> \<open>the local \<open>m\<close> of \<open>Create\<close>:
      \<open>(float64(keywords) * scaling * float64(hashes)) / math.Log(2)\<close>\<close>
  "filter_size hashes keywords scaling =
     float64 (float64 (float64 (float64 (real_of_int keywords) * scaling)
                       * float64 (real_of_int hashes))
              / math_Log 2)"

definition Create :: "int \<Rightarrow> int \<Rightarrow> real \<Rightarrow> failure + BloomFilter" where
  \<comment> \<open>\<open>make([]bool, n)\<close> panics for a negative \<open>n\<close> and zero-initialises otherwise\<close>
  "Create hashes keywords scaling =
     (let m = filter_size hashes keywords scaling; n = math_Round m
      in if n < 0 then Inl PanicMakeSliceLen
         else Inr \<lparr>BitArray = replicate (nat n) False\<rparr>)"

fun findPositions :: "byte list list \<Rightarrow> 64 word \<Rightarrow> failure + 64 word list" where
  \<comment> \<open>\<open>filterSize\<close> is the operand \<open>uint64(filterSize)\<close>; \<open>x % 0\<close> panics\<close>
  "findPositions [] filterSize = Inr []"
| "findPositions (codeword # codewords) filterSize =
     (if filterSize = 0 then Inl PanicDivideByZero
      else (case findPositions codewords filterSize of
              Inl e \<Rightarrow> Inl e
            | Inr indexPositions \<Rightarrow>
                Inr ((fst (Uvarint codeword) mod filterSize) # indexPositions)))"

fun set_positions :: "bool list \<Rightarrow> 64 word list \<Rightarrow> failure + bool list" where
  \<comment> \<open>the loop of \<open>Add\<close>: \<open>filter.BitArray[i] = true\<close>\<close>
  "set_positions bits [] = Inr bits"
| "set_positions bits (i # indexPositions) =
     (if unat i < length bits then set_positions (bits[unat i := True]) indexPositions
      else Inl PanicIndexOutOfRange)"

definition Add :: "BloomFilter \<Rightarrow> byte list list \<Rightarrow> failure + BloomFilter" where
  "Add bf codewords =
     (case findPositions codewords (word_of_nat (length (BitArray bf))) of
        Inl e \<Rightarrow> Inl e
      | Inr indexPositions \<Rightarrow>
          (case set_positions (BitArray bf) indexPositions of
             Inl e \<Rightarrow> Inl e
           | Inr bits \<Rightarrow> Inr (bf\<lparr>BitArray := bits\<rparr>)))"

fun check_positions :: "bool list \<Rightarrow> 64 word list \<Rightarrow> bool \<Rightarrow> failure + bool" where
  \<comment> \<open>the loop of \<open>Search\<close>, with the local \<open>exists\<close>\<close>
  "check_positions bits [] exists = Inr exists"
| "check_positions bits (i # indexPositions) exists =
     (if unat i < length bits
      then check_positions bits indexPositions (if bits ! unat i = False then False else exists)
      else Inl PanicIndexOutOfRange)"

definition Search :: "BloomFilter \<Rightarrow> byte list list \<Rightarrow> failure + bool" where
  "Search bf codewords =
     (case findPositions codewords (word_of_nat (length (BitArray bf))) of
        Inl e \<Rightarrow> Inl e
      | Inr indexPositions \<Rightarrow> check_positions (BitArray bf) indexPositions True)"

subsection \<open>Package cryptoUtils\<close>

type_synonym hmac = "string \<Rightarrow> byte list \<Rightarrow> byte list"

record SecureIndex =
  Trapdoors :: "byte list list"
  Codewords :: "byte list list"
  Index :: BloomFilter

definition GenerateRandomBytes :: "int \<Rightarrow> byte list \<Rightarrow> failure + (byte list \<times> byte list)" where
  \<comment> \<open>\<open>make([]byte, n)\<close>, then \<open>rand.Read\<close>; the result is the bytes and the rest of the
      tape; the source fails when it cannot supply \<open>n\<close> bytes\<close>
  "GenerateRandomBytes n rng =
     (if n < 0 then Inl PanicMakeSliceLen
      else if length rng < nat n then Inl (Err RandReadError)
      else Inr (take (nat n) rng, drop (nat n) rng))"

definition kHashes :: "real \<Rightarrow> int" where
  \<comment> \<open>\<open>int(math.Round(math.Abs(-(math.Log2(fp)))))\<close>, for \<open>fp > 0\<close>\<close>
  "kHashes fp = math_Round \<bar>- (log 2 fp)\<bar>"

function hash_keys_loop ::
  "int \<Rightarrow> int \<Rightarrow> byte list list \<Rightarrow> byte list \<Rightarrow> failure + (byte list list \<times> byte list)" where
  \<comment> \<open>\<open>for k := 0; k <= int(kHashes); k++\<close>\<close>
  "hash_keys_loop k bound keys rng =
     (if k \<le> bound then
        (case errorCheck ''ERROR: unable to generate random bytes.'' (GenerateRandomBytes 16 rng) of
           Inl e \<Rightarrow> Inl e
         | Inr (key, rng') \<Rightarrow> hash_keys_loop (k + 1) bound (keys @ [key]) rng')
      else Inr (keys, rng))"
  by pat_completeness auto
termination
  by (relation "measure (\<lambda>(k, bound, keys, rng). nat (bound + 1 - k))") auto

declare hash_keys_loop.simps [simp del]

definition GenerateHashKeys :: "real \<Rightarrow> byte list \<Rightarrow> failure + (byte list list \<times> byte list)" where
  "GenerateHashKeys fp rng = hash_keys_loop 0 (kHashes fp) [] rng"

definition BuildTrapdoors :: "hmac \<Rightarrow> string \<Rightarrow> byte list list \<Rightarrow> byte list list" where
  "BuildTrapdoors H keyword keys = map (\<lambda>key. H keyword key) keys"

definition BuildCodewords :: "hmac \<Rightarrow> string \<Rightarrow> byte list list \<Rightarrow> byte list list" where
  "BuildCodewords H filename trapdoors = map (\<lambda>t. H filename t) trapdoors"

definition Build :: "hmac \<Rightarrow> SecureIndex \<Rightarrow> string \<Rightarrow> string \<Rightarrow> byte list list \<Rightarrow> SecureIndex" where
  "Build H si filename keyword keys =
     (let si1 = si\<lparr>Trapdoors := BuildTrapdoors H keyword keys\<rparr>
      in si1\<lparr>Codewords := BuildCodewords H filename (Trapdoors si1)\<rparr>)"

definition Blind ::
  "SecureIndex \<Rightarrow> int \<Rightarrow> int \<Rightarrow> int \<Rightarrow> byte list \<Rightarrow> failure + (SecureIndex \<times> byte list)" where
  "Blind si numKeywords docSize numKeys rng =
     (let b_f = (docSize - numKeywords) * numKeys;
          blinding = []
      in case errorCheck ''ERROR: unable to generate random bytes.'' (GenerateRandomBytes b_f rng) of
           Inl e \<Rightarrow> Inl e
         | Inr (randomBytes, rng') \<Rightarrow>
             (case Add (Index si) (blinding @ [randomBytes]) of
                Inl e \<Rightarrow> Inl e
              | Inr bf \<Rightarrow> Inr (si\<lparr>Index := bf\<rparr>, rng')))"

subsection \<open>Helpers of package strings\<close>

fun split_char :: "char \<Rightarrow> string \<Rightarrow> string \<Rightarrow> string list" where
  \<comment> \<open>the pieces of a string between the occurrences of one separator byte; \<open>cur\<close> is
      the piece in progress\<close>
  "split_char sep cur [] = [cur]"
| "split_char sep cur (c # cs) =
     (if c = sep then cur # split_char sep [] cs else split_char sep (cur @ [c]) cs)"

definition strings_Split :: "string \<Rightarrow> char \<Rightarrow> string list" where
  "strings_Split s sep = split_char sep [] s"

definition strings_Contains :: "string \<Rightarrow> string \<Rightarrow> bool" where
  "strings_Contains s substr = sublist substr s"

definition strings_HasSuffix :: "string \<Rightarrow> string \<Rightarrow> bool" where
  "strings_HasSuffix s sfx = suffix sfx s"

function remove_all :: "string \<Rightarrow> string \<Rightarrow> string" where
  \<comment> \<open>\<open>strings.Replace(s, old, "", -1)\<close> for a non-empty \<open>old\<close>: every non-overlapping
      occurrence, found from the left, is removed\<close>
  "remove_all old [] = []"
| "remove_all old (c # cs) =
     (if old \<noteq> [] \<and> prefix old (c # cs) then remove_all old (drop (length old) (c # cs))
      else c # remove_all old cs)"
  by pat_completeness auto
termination
  by (relation "measure (\<lambda>(old, s). length s)") (auto simp: neq_Nil_conv)

definition fileName :: "string \<Rightarrow> string" where
  \<comment> \<open>the last piece of the path, split at backslashes if it has one and at slashes
      otherwise (\<open>splitName[len(splitName)-1]\<close>)\<close>
  "fileName file =
     (let sep = (if strings_Contains file [CHR 0x5C] then CHR 0x5C else CHR ''/'')
      in last (strings_Split file sep))"

subsection \<open>encoding/hex and encoding/csv\<close>

text \<open>
  The codec of the repository is built on \<open>hex.EncodeToString\<close>, \<open>hex.DecodeString\<close>,
  \<open>csv.Writer.Write\<close> and \<open>csv.Reader.Read\<close> of the Go standard library, with the
  default settings (comma as separator, no comment character, strict quotes, the field
  count of the first record expected of every later one). They are written here as the
  library documents them. The reader is modelled for records whose fields do not start
  with a quote; at such a field it stops with \<open>CsvQuotedNotModelled\<close>.
\<close>

definition hextable :: string where
  "hextable = ''0123456789abcdef''"

definition EncodeToString :: "byte list \<Rightarrow> string" where
  "EncodeToString src =
     concat (map (\<lambda>v. [hextable ! unat (drop_bit 4 v), hextable ! unat (v AND 0x0f)]) src)"

definition fromHexChar :: "char \<Rightarrow> byte option" where
  "fromHexChar c =
     (let n = (of_char c :: nat)
      in if 48 \<le> n \<and> n \<le> 57 then Some (of_nat (n - 48))
         else if 97 \<le> n \<and> n \<le> 102 then Some (of_nat (n - 97 + 10))
         else if 65 \<le> n \<and> n \<le> 70 then Some (of_nat (n - 65 + 10))
         else None)"

fun DecodeString :: "string \<Rightarrow> failure + byte list" where
  "DecodeString [] = Inr []"
| "DecodeString [p] =
     (case fromHexChar p of
        None \<Rightarrow> Inl (Err (HexInvalidByte p))
      | Some a \<Rightarrow> Inl (Err HexErrLength))"
| "DecodeString (p # q # src) =
     (case fromHexChar p of
        None \<Rightarrow> Inl (Err (HexInvalidByte p))
      | Some a \<Rightarrow>
          (case fromHexChar q of
             None \<Rightarrow> Inl (Err (HexInvalidByte q))
           | Some b \<Rightarrow>
               (case DecodeString src of
                  Inl e \<Rightarrow> Inl e
                | Inr dst \<Rightarrow> Inr ((push_bit 4 a OR b) # dst))))"

definition fieldNeedsQuotes :: "string \<Rightarrow> bool" where
  \<comment> \<open>the white space test is that of \<open>unicode.IsSpace\<close> on a first byte below \<open>0x80\<close>\<close>
  "fieldNeedsQuotes field =
     (if field = [] then False
      else if field = [CHR 0x5C, CHR ''.''] then True
      else if (\<exists>c \<in> set field. c = CHR '','' \<or> c = CHR 0x22 \<or> c = CHR 0x0D \<or> c = CHR 0x0A)
        then True
      else hd field \<in> {CHR '' '', CHR 0x09, CHR 0x0A, CHR 0x0B, CHR 0x0C, CHR 0x0D})"

definition write_field :: "string \<Rightarrow> string" where
  \<comment> \<open>a quoted field doubles each quote\<close>
  "write_field field =
     (if \<not> fieldNeedsQuotes field then field
      else [CHR 0x22] @ concat (map (\<lambda>c. if c = CHR 0x22 then [c, c] else [c]) field)
           @ [CHR 0x22])"

fun join_fields :: "string list \<Rightarrow> string" where
  \<comment> \<open>the loop of \<open>Write\<close>: a comma before every field but the first\<close>
  "join_fields [] = []"
| "join_fields [field] = write_field field"
| "join_fields (field # record) = write_field field @ [CHR '',''] @ join_fields record"

definition csv_Write :: "string list \<Rightarrow> string" where
  \<comment> \<open>the bytes that \<open>Write\<close> and \<open>Flush\<close> put into the file for one record\<close>
  "csv_Write record = join_fields record @ [CHR 0x0A]"

definition drop_cr :: "string \<Rightarrow> string" where
  \<comment> \<open>a carriage return before the line end (or before the end of the file) is removed\<close>
  "drop_cr line = (if line \<noteq> [] \<and> last line = CHR 0x0D then butlast line else line)"

fun read_lines :: "string \<Rightarrow> string \<Rightarrow> string list" where
  \<comment> \<open>the successive results of \<open>readLine\<close>, without their line feeds; \<open>cur\<close> is the
      line in progress\<close>
  "read_lines cur [] = (if cur = [] then [] else [drop_cr cur])"
| "read_lines cur (c # cs) =
     (if c = CHR 0x0A then drop_cr cur # read_lines [] cs else read_lines (cur @ [c]) cs)"

fun check_fields :: "string list \<Rightarrow> go_error + string list" where
  \<comment> \<open>the fields of one line from left to right\<close>
  "check_fields [] = Inr []"
| "check_fields (field # line) =
     (if field \<noteq> [] \<and> hd field = CHR 0x22 then Inl CsvQuotedNotModelled
      else if CHR 0x22 \<in> set field then Inl CsvBareQuote
      else (case check_fields line of Inl e \<Rightarrow> Inl e | Inr fs \<Rightarrow> Inr (field # fs)))"

definition parse_record :: "string \<Rightarrow> go_error + string list" where
  "parse_record line = check_fields (split_char (CHR '','') [] line)"

fun csv_Read :: "string list \<Rightarrow> nat \<Rightarrow> (go_error + string list) list" where
  \<comment> \<open>the results of the successive calls of \<open>r.Read()\<close> until \<open>io.EOF\<close> (the end of the
      list) or the first error; empty lines are skipped; \<open>fieldsPerRecord\<close> is \<open>0\<close>
      until the first record sets it\<close>
  "csv_Read [] fieldsPerRecord = []"
| "csv_Read (line # lines) fieldsPerRecord =
     (if line = [] then csv_Read lines fieldsPerRecord
      else (case parse_record line of
              Inl e \<Rightarrow> [Inl e]
            | Inr record \<Rightarrow>
                if fieldsPerRecord > 0 \<and> length record \<noteq> fieldsPerRecord
                then [Inl CsvFieldCount]
                else Inr record #
                     csv_Read lines (if fieldsPerRecord = 0 then length record else fieldsPerRecord)))"

definition csv_NewReader :: "string \<Rightarrow> (go_error + string list) list" where
  "csv_NewReader content = csv_Read (read_lines [] content) 0"

subsection \<open>Files\<close>

datatype node = Dir | File string

type_synonym filesystem = "string \<rightharpoonup> node"

definition open_read :: "filesystem \<Rightarrow> string \<Rightarrow> (go_error + string list) list" where
  \<comment> \<open>\<open>os.Open\<close> followed by \<open>csv.NewReader\<close>: reading what is not a file gives an error at
      the first \<open>Read\<close>\<close>
  "open_read fs filepath =
     (case fs filepath of Some (File content) \<Rightarrow> csv_NewReader content | _ \<Rightarrow> [Inl OpenError])"

definition writeToCSV :: "filesystem \<Rightarrow> string \<Rightarrow> string list \<Rightarrow> failure + filesystem" where
  \<comment> \<open>\<open>os.Create\<close> fails on a directory; the deferred \<open>Flush\<close> and \<open>Close\<close> run on return\<close>
  "writeToCSV fs filepath data =
     (case fs filepath of
        Some Dir \<Rightarrow> Inl (Err OpenError)
      | _ \<Rightarrow> Inr (fs(filepath \<mapsto> File (csv_Write data))))"

subsection \<open>The index builder\<close>

definition S_F :: real where
  "S_F = 1.5"

definition F_P :: real where
  "F_P = 0.01"

definition writeKeyFile :: "filesystem \<Rightarrow> string \<Rightarrow> byte list list \<Rightarrow> failure + filesystem" where
  "writeKeyFile fs filepath hashKeys =
     (let outputKeys = map EncodeToString hashKeys
      in writeToCSV fs (filepath @ ''.sindex.private'') outputKeys)"

fun decode_keys :: "string list \<Rightarrow> byte list list \<Rightarrow> failure + byte list list" where
  \<comment> \<open>\<open>for r, _ := range record\<close> of \<open>readKeyfile\<close>\<close>
  "decode_keys [] keys = Inr keys"
| "decode_keys (field # record) keys =
     (case DecodeString field of
        Inl hErr \<Rightarrow> Inl hErr
      | Inr key \<Rightarrow> decode_keys record (keys @ [key]))"

fun readKeyfile_loop :: "(go_error + string list) list \<Rightarrow> byte list list \<Rightarrow> failure + byte list list" where
  \<comment> \<open>the \<open>for\<close> loop of \<open>readKeyfile\<close> over the results of \<open>r.Read()\<close>\<close>
  "readKeyfile_loop [] keys = Inr keys"
| "readKeyfile_loop (Inl rErr # reads) keys = Inl (Err rErr)"
| "readKeyfile_loop (Inr record # reads) keys =
     (case decode_keys record keys of
        Inl hErr \<Rightarrow> Inl hErr
      | Inr keys' \<Rightarrow> readKeyfile_loop reads keys')"

definition readKeyfile :: "filesystem \<Rightarrow> string \<Rightarrow> failure + byte list list" where
  "readKeyfile fs filepath =
     (case fs filepath of
        None \<Rightarrow> Inl (Err OpenError)
      | Some _ \<Rightarrow> readKeyfile_loop (open_read fs filepath) [])"

definition writeSecureIndexFile :: "filesystem \<Rightarrow> string \<Rightarrow> bool list \<Rightarrow> failure + filesystem" where
  "writeSecureIndexFile fs filepath indexArray =
     (let outputArray = map (\<lambda>v. if v then ''1'' else ''0'') indexArray
      in writeToCSV fs (filepath @ ''.sindex'') outputArray)"

record Text =
  Filepath :: string
  RawText :: string
  Keywords :: "string list"

fun add_keywords ::
  "hmac \<Rightarrow> string \<Rightarrow> byte list list \<Rightarrow> SecureIndex \<Rightarrow> string list \<Rightarrow> failure + SecureIndex" where
  \<comment> \<open>\<open>for _, keyword := range text.Keywords\<close>: \<open>Build\<close>, then \<open>Add\<close> of the codewords\<close>
  "add_keywords H fname hashKeys sIndex [] = Inr sIndex"
| "add_keywords H fname hashKeys sIndex (keyword # keywords) =
     (let sIndex1 = Build H sIndex fname keyword hashKeys
      in case Add (Index sIndex1) (Codewords sIndex1) of
           Inl e \<Rightarrow> Inl e
         | Inr bf \<Rightarrow> add_keywords H fname hashKeys (sIndex1\<lparr>Index := bf\<rparr>) keywords)"

definition build_index ::
  "hmac \<Rightarrow> byte list list \<Rightarrow> Text \<Rightarrow> byte list \<Rightarrow> failure + (SecureIndex \<times> byte list)" where
  \<comment> \<open>the body of the loop of \<open>main\<close> for one file whose text and keywords have been
      extracted, up to and including the blinding\<close>
  "build_index H hashKeys text rng =
     (case Create (int (length (Keywords text))) (int (length hashKeys)) S_F of
        Inl e \<Rightarrow> Inl e
      | Inr bf \<Rightarrow>
          (let sIndex = \<lparr>Trapdoors = [], Codewords = [], Index = bf\<rparr>;
               fname = fileName (Filepath text)
           in case add_keywords H fname hashKeys sIndex (Keywords text) of
                Inl e \<Rightarrow> Inl e
              | Inr sIndex' \<Rightarrow>
                  Blind sIndex' (int (length (Keywords text))) (int (length (RawText text)))
                    (int (length hashKeys)) rng))"

definition index_file ::
  "hmac \<Rightarrow> byte list list \<Rightarrow> Text \<Rightarrow> filesystem \<Rightarrow> byte list \<Rightarrow>
     failure + (SecureIndex \<times> filesystem \<times> byte list)" where
  \<comment> \<open>\<open>build_index\<close>, then the index is written next to the document\<close>
  "index_file H hashKeys text fs rng =
     (case build_index H hashKeys text rng of
        Inl e \<Rightarrow> Inl e
      | Inr (sIndex, rng') \<Rightarrow>
          (case errorCheck ''ERROR: unable to write secure index to file.''
                  (writeSecureIndexFile fs (Filepath text) (BitArray (Index sIndex))) of
             Inl e \<Rightarrow> Inl e
           | Inr fs' \<Rightarrow> Inr (sIndex, fs', rng')))"

subsection \<open>The search server\<close>

fun ReadSecureIndexFile_loop :: "(go_error + string list) list \<Rightarrow> bool list \<Rightarrow> failure + bool list" where
  \<comment> \<open>every field other than \<open>"0"\<close> is a set bit\<close>
  "ReadSecureIndexFile_loop [] si = Inr si"
| "ReadSecureIndexFile_loop (Inl err # reads) si = Inl (Err err)"
| "ReadSecureIndexFile_loop (Inr record # reads) si =
     ReadSecureIndexFile_loop reads (si @ map (\<lambda>field. field \<noteq> ''0'') record)"

definition ReadSecureIndexFile :: "filesystem \<Rightarrow> string \<Rightarrow> failure + bool list" where
  "ReadSecureIndexFile fs filepath = ReadSecureIndexFile_loop (open_read fs filepath) []"

definition document_id :: "string \<Rightarrow> string" where
  \<comment> \<open>\<open>strings.Replace(fname, ".sindex", "", -1)\<close> on the file name of the index\<close>
  "document_id file = remove_all ''.sindex'' (fileName file)"

fun search_files ::
  "hmac \<Rightarrow> filesystem \<Rightarrow> byte list list \<Rightarrow> string list \<Rightarrow> string \<Rightarrow> string list \<Rightarrow>
     failure + (string \<times> string list)" where
  \<comment> \<open>\<open>for _, file := range files\<close>; \<open>out\<close> is what has been written to the connection,
      \<open>results\<close> the matches so far\<close>
  "search_files H fs trapdoors [] out results = Inr (out, results)"
| "search_files H fs trapdoors (file # files) out results =
     (if strings_HasSuffix file ''.sindex'' then
        (case errorCheck ''ERROR: unable to read secure index file.'' (ReadSecureIndexFile fs file) of
           Inl e \<Rightarrow> Inl e
         | Inr si \<Rightarrow>
             (let bf = \<lparr>BitArray = si\<rparr>;
                  codewords = BuildCodewords H (document_id file) trapdoors
              in case Search bf codewords of
                   Inl e \<Rightarrow> Inl e
                 | Inr match \<Rightarrow>
                     search_files H fs trapdoors files (out @ '' -'' @ file @ [CHR 0x0A])
                       (if match then results @ ['' -'' @ document_id file @ [CHR 0x0A]]
                        else results)))
      else search_files H fs trapdoors files out results)"

definition checked_header :: string where
  "checked_header =
     [CHR 0x0A] @ '' Checked the following indexes:'' @ [CHR 0x0A] @
     '' -------------------------------'' @ [CHR 0x0A]"

definition matches_header :: string where
  "matches_header =
     [CHR 0x0A] @ '' Keyword matches found:'' @ [CHR 0x0A] @
     '' ----------------------'' @ [CHR 0x0A]"

datatype frame =
    DecodeError                 \<comment> \<open>\<open>Decode\<close> returns an error: malformed JSON, or the peer is gone\<close>
  | Null                        \<comment> \<open>JSON \<open>null\<close>: the slice becomes \<open>nil\<close>\<close>
  | Vector "byte list list"     \<comment> \<open>a JSON array: a non-nil slice, possibly empty\<close>

definition handle_frame ::
  "hmac \<Rightarrow> filesystem \<Rightarrow> string list \<Rightarrow> frame \<Rightarrow> failure + string option" where
  \<comment> \<open>one iteration of the loop of \<open>handleConnection\<close>; \<open>files\<close> is what \<open>filepath.Walk\<close>
      lists; the result is \<open>None\<close> when the function returns and the text written to
      the connection otherwise\<close>
  "handle_frame H fs files fr =
     (case fr of
        DecodeError \<Rightarrow> Inl (Exit ''ERROR: unable to read data sent from TCP client.'')
      | Null \<Rightarrow> Inr None
      | Vector trapdoors \<Rightarrow>
          (case search_files H fs trapdoors files checked_header [] of
             Inl e \<Rightarrow> Inl e
           | Inr (out, results) \<Rightarrow>
               Inr (Some (out @ matches_header
                          @ (if length results > 0 then concat results
                             else '' -No matches found.'' @ [CHR 0x0A])
                          @ [CHR 0x0A] @ ''>''))))"

fun handleConnection ::
  "hmac \<Rightarrow> filesystem \<Rightarrow> string list \<Rightarrow> frame list \<Rightarrow> string \<Rightarrow> failure + string" where
  \<comment> \<open>the frames a peer sends before it disconnects; at the end of the stream \<open>Decode\<close>
      returns \<open>io.EOF\<close>\<close>
  "handleConnection H fs files [] out = Inl (Exit ''ERROR: unable to read data sent from TCP client.'')"
| "handleConnection H fs files (fr # frames) out =
     (case handle_frame H fs files fr of
        Inl e \<Rightarrow> Inl e
      | Inr None \<Rightarrow> Inr out
      | Inr (Some reply) \<Rightarrow> handleConnection H fs files frames (out @ reply))"




subsection \<open>The position function of the specification\<close>

text \<open>
  The position function as the specification words it: the leading bytes of the
  codeword are a little-endian base-128 varint, each byte giving its low seven bits and
  its high bit saying that another byte follows (\<open>varint_spec\<close>, \<open>None\<close> when no byte ends
  the varint); the position is the low 64 bits of that value modulo the filter size
  (\<open>spec_position\<close>).
\<close>

fun varint_spec :: "byte list \<Rightarrow> nat option" where
  "varint_spec [] = None"
| "varint_spec (b # bs) =
     (if b < 0x80 then Some (unat b)
      else map_option (\<lambda>v. unat (b AND 0x7f) + 128 * v) (varint_spec bs))"

definition spec_position :: "byte list \<Rightarrow> 64 word \<Rightarrow> 64 word option" where
  "spec_position c m = map_option (\<lambda>v. (word_of_nat v :: 64 word) mod m) (varint_spec c)"

text \<open>
  What \<open>Uvarint\<close> returns, as a number: the value of the varint when it ends within the
  first ten bytes and fits 64 bits, and \<open>0\<close> otherwise.
\<close>

definition uvarint_value :: "byte list \<Rightarrow> nat" where
  "uvarint_value c =
     (case varint_spec (take 10 c) of
        Some v \<Rightarrow> if v < 2 ^ 64 then v else 0
      | None \<Rightarrow> 0)"

definition decoded :: "nat \<Rightarrow> 64 word" where
  \<comment> \<open>the result of \<open>Uvarint\<close> for a varint of value \<open>v\<close>\<close>
  "decoded v = (if v < 2 ^ 64 then word_of_nat v else 0)"

subsection \<open>Auxiliary notions\<close>

text \<open>
  \<open>inserted\<close>: the positions of the codewords of keyword \<open>w\<close> exist and are all set in
  \<open>bits\<close>. \<open>plain\<close>: a CSV field made of lower-case hexadecimal digits only.
\<close>

definition inserted :: "hmac \<Rightarrow> string \<Rightarrow> byte list list \<Rightarrow> bool list \<Rightarrow> string \<Rightarrow> bool" where
  "inserted H fname hashKeys bits w =
     (\<exists>ps. findPositions (BuildCodewords H fname (BuildTrapdoors H w hashKeys))
              (word_of_nat (length bits)) = Inr ps \<and>
           list_all (\<lambda>p. unat p < length bits \<and> bits ! unat p) ps)"

definition plain :: "string \<Rightarrow> bool" where
  "plain field = (set field \<subseteq> set hextable)"

section \<open>Properties\<close>

subsection \<open>Rounding to float64\<close>

lemma rne_error: "\<bar>real_of_int (rne q) - q\<bar> \<le> 1 / 2"
  unfolding rne_def Let_def by (auto; linarith)

lemma float64_zero: "float64 0 = 0"
  by (simp add: float64_def)

lemma float64_error: "\<bar>float64 x - x\<bar> \<le> \<bar>x\<bar> / 2 ^ 53"
proof (cases "x = 0")
  case True
  then show ?thesis by (simp add: float64_def)
next
  case False
  define e where "e = \<lfloor>log 2 \<bar>x\<bar>\<rfloor>"
  define ulp where "ulp = 2 powr real_of_int (e - 52)"
  have pos: "0 < ulp" by (simp add: ulp_def)
  have fl: "float64 x = real_of_int (rne (x / ulp)) * ulp"
    using False by (simp add: float64_def e_def ulp_def Let_def)
  have "real_of_int e \<le> log 2 \<bar>x\<bar>" by (simp add: e_def)
  then have "2 powr real_of_int e \<le> 2 powr log 2 \<bar>x\<bar>"
    by (simp add: powr_mono)
  then have le: "2 powr real_of_int e \<le> \<bar>x\<bar>"
    using False by simp
  have "2 powr real_of_int e = ulp * 2 powr 52"
    by (simp add: ulp_def powr_diff)
  then have ulp52: "2 powr real_of_int e = ulp * 2 ^ 52"
    by simp
  have "float64 x - x = (real_of_int (rne (x / ulp)) - x / ulp) * ulp"
    using pos by (simp add: fl field_simps)
  then have "\<bar>float64 x - x\<bar> = \<bar>real_of_int (rne (x / ulp)) - x / ulp\<bar> * ulp"
    using pos by (simp add: abs_mult)
  also have "\<dots> \<le> (1 / 2) * ulp"
    using rne_error [of "x / ulp"] pos by (intro mult_right_mono) simp_all
  also have "\<dots> = (ulp * 2 ^ 52) / 2 ^ 53" by simp
  also have "\<dots> \<le> \<bar>x\<bar> / 2 ^ 53"
    using le ulp52 by (simp add: divide_right_mono)
  finally show ?thesis .
qed

lemma step_float:
  assumes "0 \<le> A" and "0 \<le> l" and "A * l \<le> a" and "a \<le> A * h"
  shows "A * (l * (1 - 1 / 2 ^ 53)) \<le> float64 a \<and> float64 a \<le> A * (h * (1 + 1 / 2 ^ 53))"
proof -
  have "0 \<le> A * l" using assms by simp
  with assms have a0: "0 \<le> a" by linarith
  from float64_error [of a] a0 have "\<bar>float64 a - a\<bar> \<le> a / 2 ^ 53" by simp
  then have "a - a / 2 ^ 53 \<le> float64 a" and "float64 a \<le> a + a / 2 ^ 53"
    by linarith+
  then have lo: "a * (1 - 1 / 2 ^ 53) \<le> float64 a"
    and hi: "float64 a \<le> a * (1 + 1 / 2 ^ 53)"
    by (simp_all add: algebra_simps)
  have "A * l * (1 - 1 / 2 ^ 53) \<le> a * (1 - 1 / 2 ^ 53)"
    using assms(3) by (intro mult_right_mono) simp_all
  with lo have 1: "A * (l * (1 - 1 / 2 ^ 53)) \<le> float64 a" by (simp add: mult.assoc)
  have "a * (1 + 1 / 2 ^ 53) \<le> A * h * (1 + 1 / 2 ^ 53)"
    using assms(4) by (intro mult_right_mono) simp_all
  with hi have 2: "float64 a \<le> A * (h * (1 + 1 / 2 ^ 53))" by (simp add: mult.assoc)
  from 1 2 show ?thesis ..
qed

lemma step_mult:
  fixes A B a b l l' h h' :: real
  assumes "0 \<le> A" and "0 \<le> l" and "A * l \<le> a" and "a \<le> A * h"
    and "0 \<le> B" and "0 \<le> l'" and "B * l' \<le> b" and "b \<le> B * h'"
  shows "(A * B) * (l * l') \<le> a * b \<and> a * b \<le> (A * B) * (h * h')"
proof -
  have n: "0 \<le> A * l" "0 \<le> B * l'" using assms by simp_all
  with assms have a0: "0 \<le> a" and b0: "0 \<le> b" by linarith+
  with assms have h0: "0 \<le> A * h" by linarith
  have "(A * l) * (B * l') \<le> a * b"
    using assms(3,7) a0 n(2) by (rule mult_mono)
  moreover have "a * b \<le> (A * h) * (B * h')"
    using assms(4,8) h0 b0 by (rule mult_mono)
  ultimately show ?thesis by (simp add: mult_ac)
qed

lemma step_div:
  fixes A B a b l l' h h' :: real
  assumes "0 \<le> A" and "0 \<le> l" and "A * l \<le> a" and "a \<le> A * h"
    and "0 < B" and "0 < l'" and "B * l' \<le> b" and "b \<le> B * h'"
  shows "(A / B) * (l / h') \<le> a / b \<and> a / b \<le> (A / B) * (h / l')"
proof -
  have "0 \<le> A * l" using assms by simp
  with assms have a0: "0 \<le> a" by linarith
  from assms have bl: "0 < B * l'" by simp
  with assms have b0: "0 < b" by linarith
  have "(A * l) / (B * h') \<le> a / b"
    using a0 assms(3) b0 assms(8) by (rule frac_le)
  moreover from a0 assms(4) have "0 \<le> A * h" by linarith
  then have "a / b \<le> (A * h) / (B * l')"
    using assms(4) bl assms(7) by (rule frac_le)
  ultimately show ?thesis by simp
qed


lemma float64_ln2: "ln 2 * (1 - 1 / 2 ^ 53) \<le> math_Log 2 \<and> math_Log 2 \<le> ln 2 * (1 + 1 / 2 ^ 53)"
  using step_float [of "ln 2" 1 "ln 2" 1] by (simp add: math_Log_def)

lemma filter_size_bounds:
  assumes "0 \<le> hashes" and "0 \<le> keywords" and "0 \<le> scaling"
  shows "(real_of_int keywords * scaling * real_of_int hashes) / ln 2 * (1 - 1 / 2 ^ 49)
           \<le> filter_size hashes keywords scaling \<and>
         filter_size hashes keywords scaling
           \<le> (real_of_int keywords * scaling * real_of_int hashes) / ln 2 * (1 + 1 / 2 ^ 49)"
proof -
  let ?K = "real_of_int keywords" and ?H = "real_of_int hashes"
  let ?d = "1 - 1 / 2 ^ 53 :: real" and ?u = "1 + 1 / 2 ^ 53 :: real"
  have K0: "0 \<le> ?K" and H0: "0 \<le> ?H" using assms by simp_all
  have k: "?K * (1 * ?d) \<le> float64 ?K \<and> float64 ?K \<le> ?K * (1 * ?u)"
    using step_float [of ?K 1 ?K 1] K0 by simp
  have h: "?H * (1 * ?d) \<le> float64 ?H \<and> float64 ?H \<le> ?H * (1 * ?u)"
    using step_float [of ?H 1 ?H 1] H0 by simp
  have s: "scaling * 1 \<le> scaling \<and> scaling \<le> scaling * 1" by simp
  have p1: "(?K * scaling) * ((1 * ?d) * 1) \<le> float64 ?K * scaling \<and>
            float64 ?K * scaling \<le> (?K * scaling) * ((1 * ?u) * 1)"
    using k s K0 assms(3) by (intro step_mult) simp_all
  have p1': "(?K * scaling) * (((1 * ?d) * 1) * ?d) \<le> float64 (float64 ?K * scaling) \<and>
             float64 (float64 ?K * scaling) \<le> (?K * scaling) * (((1 * ?u) * 1) * ?u)"
    using p1 K0 assms(3) by (intro step_float) simp_all
  have p2: "((?K * scaling) * ?H) * ((((1 * ?d) * 1) * ?d) * (1 * ?d))
              \<le> float64 (float64 ?K * scaling) * float64 ?H \<and>
            float64 (float64 ?K * scaling) * float64 ?H
              \<le> ((?K * scaling) * ?H) * ((((1 * ?u) * 1) * ?u) * (1 * ?u))"
    using p1' h K0 H0 assms(3) by (intro step_mult) simp_all
  have p2': "((?K * scaling) * ?H) * (((((1 * ?d) * 1) * ?d) * (1 * ?d)) * ?d)
              \<le> float64 (float64 (float64 ?K * scaling) * float64 ?H) \<and>
            float64 (float64 (float64 ?K * scaling) * float64 ?H)
              \<le> ((?K * scaling) * ?H) * (((((1 * ?u) * 1) * ?u) * (1 * ?u)) * ?u)"
    using p2 K0 H0 assms(3) by (intro step_float) simp_all
  have l: "ln 2 * ?d \<le> math_Log 2 \<and> math_Log 2 \<le> ln 2 * ?u"
    by (rule float64_ln2)
  have q: "(((?K * scaling) * ?H) / ln 2) * ((((((1 * ?d) * 1) * ?d) * (1 * ?d)) * ?d) / ?u)
              \<le> float64 (float64 (float64 ?K * scaling) * float64 ?H) / math_Log 2 \<and>
           float64 (float64 (float64 ?K * scaling) * float64 ?H) / math_Log 2
              \<le> (((?K * scaling) * ?H) / ln 2) * ((((((1 * ?u) * 1) * ?u) * (1 * ?u)) * ?u) / ?d)"
    using p2' l K0 H0 assms(3) by (intro step_div) simp_all
  have q': "(((?K * scaling) * ?H) / ln 2) * (((((((1 * ?d) * 1) * ?d) * (1 * ?d)) * ?d) / ?u) * ?d)
              \<le> filter_size hashes keywords scaling \<and>
           filter_size hashes keywords scaling
              \<le> (((?K * scaling) * ?H) / ln 2) * (((((((1 * ?u) * 1) * ?u) * (1 * ?u)) * ?u) / ?d) * ?u)"
    unfolding filter_size_def
    using q K0 H0 assms(3) by (intro step_float) simp_all
  have x0: "0 \<le> ((?K * scaling) * ?H) / ln 2"
    using K0 H0 assms(3) by simp
  have lo: "(1 - 1 / 2 ^ 49 :: real) \<le> ((((((1 * ?d) * 1) * ?d) * (1 * ?d)) * ?d) / ?u) * ?d"
    by simp
  have hi: "((((((1 * ?u) * 1) * ?u) * (1 * ?u)) * ?u) / ?d) * ?u \<le> (1 + 1 / 2 ^ 49 :: real)"
    by simp
  from mult_left_mono [OF lo x0] mult_left_mono [OF hi x0] q' show ?thesis
    by linarith
qed


lemma Create_nearest_int:
  assumes "0 \<le> hashes" and "0 \<le> keywords" and "0 \<le> scaling"
    and "real_of_int j - 1 / 2
           \<le> (real_of_int keywords * scaling * real_of_int hashes) / ln 2 * (1 - 1 / 2 ^ 49)"
    and "(real_of_int keywords * scaling * real_of_int hashes) / ln 2 * (1 + 1 / 2 ^ 49)
           < real_of_int j + 1 / 2"
  shows "Create hashes keywords scaling = Inr \<lparr>BitArray = replicate (nat j) False\<rparr>"
proof -
  let ?x = "(real_of_int keywords * scaling * real_of_int hashes) / ln 2"
  let ?m = "filter_size hashes keywords scaling"
  have x0: "0 \<le> ?x" using assms(1-3) by simp
  then have "0 \<le> ?x * (1 - 1 / 2 ^ 49)" by (intro mult_nonneg_nonneg) simp_all
  with filter_size_bounds [OF assms(1-3)] have m0: "0 \<le> ?m" by linarith
  have "\<lfloor>?m + 1 / 2\<rfloor> = j"
    using filter_size_bounds [OF assms(1-3)] assms(4,5) by (intro floor_unique) linarith+
  with m0 have r: "math_Round ?m = j" by (simp add: math_Round_def)
  from m0 have "0 \<le> \<lfloor>?m + 1 / 2\<rfloor>" by simp
  with \<open>\<lfloor>?m + 1 / 2\<rfloor> = j\<close> have "0 \<le> j" by simp
  with r show ?thesis by (simp add: Create_def Let_def)
qed

subsection \<open>The empty filter\<close>

lemma Create_no_keywords: "Create hashes 0 scaling = Inr \<lparr>BitArray = []\<rparr>"
  by (simp add: Create_def filter_size_def float64_zero math_Round_def)

lemma Create_first_zero: "Create 0 keywords scaling = Inr \<lparr>BitArray = []\<rparr>"
  by (simp add: Create_def filter_size_def float64_zero math_Round_def)

lemma Search_Nil: "Search bf [] = Inr True"
  by (simp add: Search_def)

text \<open>
  C4 (empty-filter safety). A filter created for no keywords has an empty bit array,
  whether the count is the parameter \<open>keywords\<close> of \<open>Create\<close> or, as in the call of
  \<open>main\<close>, its first argument. On it, \<open>Add\<close> and \<open>Search\<close> of a tuple with at least one
  codeword stop with the panic of \<open>x % 0\<close> in \<open>findPositions\<close>, and \<open>Search\<close> of the empty
  tuple returns true: the code neither leaves the filter alone nor answers false.
\<close>

theorem empty_filter_faults:
  "Create hashes 0 scaling = Inr \<lparr>BitArray = []\<rparr> \<and>
   Create 0 keywords scaling = Inr \<lparr>BitArray = []\<rparr> \<and>
   Add \<lparr>BitArray = []\<rparr> (c # cs) = Inl PanicDivideByZero \<and>
   Search \<lparr>BitArray = []\<rparr> (c # cs) = Inl PanicDivideByZero \<and>
   Search \<lparr>BitArray = []\<rparr> [] = Inr True"
  by (simp add: Create_no_keywords Create_first_zero Add_def Search_def)

text \<open>
  The builder reaches this panic on every document without keywords: the blinding step
  adds one buffer to the empty filter.
\<close>

lemma build_index_no_keywords:
  assumes "Keywords text = []"
    and "length (RawText text) * length hashKeys \<le> length rng"
  shows "build_index H hashKeys text rng = Inl PanicDivideByZero"
proof -
  let ?b = "int (length (RawText text)) * int (length hashKeys)"
  have "nat ?b = length (RawText text) * length hashKeys"
    by (simp add: nat_mult_distrib)
  moreover have "0 \<le> ?b" by simp
  ultimately have "GenerateRandomBytes ?b rng = Inr (take (nat ?b) rng, drop (nat ?b) rng)"
    using assms(2) by (simp add: GenerateRandomBytes_def not_less del: of_nat_mult)
  then show ?thesis
    using assms(1)
    by (simp add: build_index_def Create_first_zero Blind_def errorCheck_def Add_def)
qed

subsection \<open>The document identifier on the server\<close>

text \<open>
  C9 (document identifier recovery). For the index \<open>a.sindex.txt.sindex\<close> of the
  document \<open>a.sindex.txt\<close> the server derives the identifier \<open>a.txt\<close>: \<open>strings.Replace\<close>
  with count \<open>-1\<close> removes every occurrence of \<open>.sindex\<close>, not only the suffix.
\<close>

theorem document_id_removes_every_sindex:
  "strings_HasSuffix ''test/a.sindex.txt.sindex'' ''.sindex'' \<and>
   fileName ''test/a.sindex.txt.sindex'' = ''a.sindex.txt.sindex'' \<and>
   document_id ''test/a.sindex.txt.sindex'' = ''a.txt''"
  by code_simp

subsection \<open>The empty trapdoor vector\<close>

lemma search_files_empty_vector:
  assumes "\<forall>file \<in> set files. strings_HasSuffix file ''.sindex'' \<longrightarrow>
             (\<exists>si. ReadSecureIndexFile fs file = Inr si)"
  shows "search_files H fs [] files out results =
           Inr (out @ concat (map (\<lambda>f. '' -'' @ f @ [CHR 0x0A])
                                 (filter (\<lambda>f. strings_HasSuffix f ''.sindex'') files)),
                results @ map (\<lambda>f. '' -'' @ document_id f @ [CHR 0x0A])
                                 (filter (\<lambda>f. strings_HasSuffix f ''.sindex'') files))"
  using assms
proof (induction files arbitrary: out results)
  case Nil
  show ?case by simp
next
  case (Cons f files)
  show ?case
  proof (cases "strings_HasSuffix f ''.sindex''")
    case False
    with Cons show ?thesis by simp
  next
    case True
    with Cons.prems obtain si where si: "ReadSecureIndexFile fs f = Inr si" by auto
    have rest: "\<forall>file \<in> set files. strings_HasSuffix file ''.sindex'' \<longrightarrow>
             (\<exists>si. ReadSecureIndexFile fs file = Inr si)"
      using Cons.prems by simp
    show ?thesis
      using True si Cons.IH [OF rest]
      by (simp add: errorCheck_def BuildCodewords_def Search_Nil)
  qed
qed

text \<open>
  C10 (empty codeword tuple). \<open>Search\<close> of the empty tuple is true for every filter. A
  frame that decodes to an empty vector is not the \<open>nil\<close> that ends the connection: when
  every index file under the root can be read, the reply lists each of them as checked
  and the identifier of each of them as a match.
\<close>

theorem empty_vector_matches_every_index:
  assumes "\<forall>file \<in> set files. strings_HasSuffix file ''.sindex'' \<longrightarrow>
             (\<exists>si. ReadSecureIndexFile fs file = Inr si)"
  shows "Search bf [] = Inr True \<and>
         handle_frame H fs files (Vector []) =
           Inr (Some (checked_header
                      @ concat (map (\<lambda>f. '' -'' @ f @ [CHR 0x0A])
                                 (filter (\<lambda>f. strings_HasSuffix f ''.sindex'') files))
                      @ matches_header
                      @ (if filter (\<lambda>f. strings_HasSuffix f ''.sindex'') files = []
                         then '' -No matches found.'' @ [CHR 0x0A]
                         else concat (map (\<lambda>f. '' -'' @ document_id f @ [CHR 0x0A])
                                 (filter (\<lambda>f. strings_HasSuffix f ''.sindex'') files)))
                      @ [CHR 0x0A] @ ''>''))"
  by (simp add: Search_Nil handle_frame_def search_files_empty_vector [OF assms])

theorem empty_vector_matches_every_index_witness:
  "ReadSecureIndexFile [''test/a.txt.sindex'' \<mapsto> File ''0,0'', ''test/b.txt.sindex'' \<mapsto> File '''']
     ''test/a.txt.sindex'' = Inr [False, False] \<and>
   ReadSecureIndexFile [''test/a.txt.sindex'' \<mapsto> File ''0,0'', ''test/b.txt.sindex'' \<mapsto> File '''']
     ''test/b.txt.sindex'' = Inr [] \<and>
   handle_frame (\<lambda>m k. k)
     [''test/a.txt.sindex'' \<mapsto> File ''0,0'', ''test/b.txt.sindex'' \<mapsto> File '''']
     [''test/'', ''test/a.txt.sindex'', ''test/b.txt.sindex''] (Vector []) =
     Inr (Some (checked_header
                @ '' -test/a.txt.sindex'' @ [CHR 0x0A] @ '' -test/b.txt.sindex'' @ [CHR 0x0A]
                @ matches_header
                @ '' -a.txt'' @ [CHR 0x0A] @ '' -b.txt'' @ [CHR 0x0A]
                @ [CHR 0x0A] @ ''>''))"
proof -
  let ?fs = "[''test/a.txt.sindex'' \<mapsto> File ''0,0'', ''test/b.txt.sindex'' \<mapsto> File '''']"
  let ?files = "[''test/'', ''test/a.txt.sindex'', ''test/b.txt.sindex'']"
  have a: "ReadSecureIndexFile ?fs ''test/a.txt.sindex'' = Inr [False, False]"
    by (simp add: ReadSecureIndexFile_def open_read_def csv_NewReader_def parse_record_def
        drop_cr_def)
  have b: "ReadSecureIndexFile ?fs ''test/b.txt.sindex'' = Inr []"
    by (simp add: ReadSecureIndexFile_def open_read_def csv_NewReader_def parse_record_def
        drop_cr_def)
  have s0: "\<not> strings_HasSuffix ''test/'' ''.sindex''"
    by code_simp
  have s1: "strings_HasSuffix ''test/a.txt.sindex'' ''.sindex''"
    by code_simp
  have s2: "strings_HasSuffix ''test/b.txt.sindex'' ''.sindex''"
    by code_simp
  have d1: "document_id ''test/a.txt.sindex'' = ''a.txt''"
    by code_simp
  have d2: "document_id ''test/b.txt.sindex'' = ''b.txt''"
    by code_simp
  have readable: "\<forall>file \<in> set ?files. strings_HasSuffix file ''.sindex'' \<longrightarrow>
             (\<exists>si. ReadSecureIndexFile ?fs file = Inr si)"
    using a b s0 by simp
  show ?thesis
    using empty_vector_matches_every_index [OF readable, of _ "\<lambda>m k. k"] a b s0 s1 s2 d1 d2
    by simp
qed

subsection \<open>The key count\<close>

lemma log2_100_lower: "13 / 2 \<le> log 2 (100::real)"
proof -
  have "(2::real) powr 13 \<le> 100 ^ 2" by simp
  then have "13 \<le> log 2 ((100::real) ^ 2)"
    by (subst le_log_iff) simp_all
  moreover have "log 2 ((100::real) ^ 2) = 2 * log 2 100"
    by (subst log_nat_power) simp_all
  ultimately show ?thesis by simp
qed

lemma log2_100_upper: "log 2 (100::real) < 15 / 2"
proof -
  have "(100::real) ^ 2 < 2 powr 15" by simp
  then have "log 2 ((100::real) ^ 2) < 15"
    by (subst log_less_iff) simp_all
  moreover have "log 2 ((100::real) ^ 2) = 2 * log 2 100"
    by (subst log_nat_power) simp_all
  ultimately show ?thesis by simp
qed

lemma kHashes_F_P: "kHashes F_P = 7"
proof -
  have "log 2 F_P = - log 2 (100::real)"
    by (simp add: F_P_def log_divide)
  then have "\<bar>- (log 2 F_P)\<bar> = log 2 (100::real)"
    using log2_100_lower by simp
  then show ?thesis
    using log2_100_lower log2_100_upper
    by (simp add: kHashes_def math_Round_def) linarith
qed



lemma hash_keys_loop_count:
  "16 * nat (bound + 1 - k) \<le> length rng \<Longrightarrow>
   \<exists>keys' rng'. hash_keys_loop k bound keys rng = Inr (keys', rng') \<and>
     length keys' = length keys + nat (bound + 1 - k) \<and>
     (\<forall>key \<in> set keys'. key \<in> set keys \<or> length key = 16)"
proof (induction k bound keys rng rule: hash_keys_loop.induct)
  case (1 k bound keys rng)
  show ?case
  proof (cases "k \<le> bound")
    case False
    then show ?thesis by (simp add: hash_keys_loop.simps)
  next
    case True
    then have n: "nat (bound + 1 - k) = Suc (nat (bound + 1 - (k + 1)))" by simp
    with "1.prems" have len: "16 \<le> length rng" by simp
    then have g: "GenerateRandomBytes 16 rng = Inr (take 16 rng, drop 16 rng)"
      by (simp add: GenerateRandomBytes_def)
    have e: "errorCheck ''ERROR: unable to generate random bytes.'' (GenerateRandomBytes 16 rng)
               = Inr (take 16 rng, drop 16 rng)"
      by (simp add: g errorCheck_def)
    have "16 * nat (bound + 1 - (k + 1)) \<le> length (drop 16 rng)"
      using "1.prems" n by simp
    from "1.IH" [OF True e refl this]
    obtain keys' rng' where r: "hash_keys_loop (k + 1) bound (keys @ [take 16 rng]) (drop 16 rng) = Inr (keys', rng')"
      "length keys' = length (keys @ [take 16 rng]) + nat (bound + 1 - (k + 1))"
      "\<forall>key \<in> set keys'. key \<in> set (keys @ [take 16 rng]) \<or> length key = 16"
      by blast
    have "hash_keys_loop k bound keys rng = Inr (keys', rng')"
      using True r(1) by (subst hash_keys_loop.simps) (simp add: e)
    moreover have "length keys' = length keys + nat (bound + 1 - k)"
      using r(2) n by simp
    moreover have "\<forall>key \<in> set keys'. key \<in> set keys \<or> length key = 16"
      using r(3) len by auto
    ultimately show ?thesis by blast
  qed
qed

text \<open>
  C2 (key count). With the false-positive rate \<open>F_P = 0.01\<close> of the builder,
  \<open>int(kHashes)\<close> is \<open>7\<close> and the loop \<open>for k := 0; k <= int(kHashes); k++\<close> runs for
  \<open>k = 0, ..., 7\<close>: given a random source with enough bytes, \<open>GenerateHashKeys\<close> returns
  eight keys of 16 bytes each, one more than the seven of the claim.
\<close>

theorem GenerateHashKeys_F_P_count:
  assumes "128 \<le> length rng"
  shows "\<exists>keys rng'. GenerateHashKeys F_P rng = Inr (keys, rng') \<and> length keys = 8 \<and>
           (\<forall>key \<in> set keys. length key = 16)"
proof -
  have "16 * nat (7 + 1 - 0) \<le> length rng" using assms by simp
  from hash_keys_loop_count [OF this, of "[]"] show ?thesis
    by (auto simp: GenerateHashKeys_def kHashes_F_P)
qed

theorem GenerateHashKeys_F_P_count_witness:
  "128 \<le> length (replicate 128 (0::byte)) \<and>
   (\<exists>keys rng'. GenerateHashKeys F_P (replicate 128 0) = Inr (keys, rng') \<and> length keys = 8)"
  using GenerateHashKeys_F_P_count [of "replicate 128 0"] by auto

subsection \<open>The size of the filter\<close>

lemma ln2_upper: "ln (2::real) < 7 / 10"
proof -
  obtain t where t: "exp (7 / 10 :: real) = (\<Sum>m<5. ((7 / 10) ^ m) / fact m) + (exp t / fact 5) * (7 / 10) ^ 5"
    using Maclaurin_exp_le [of "7 / 10" 5] by blast
  have "0 \<le> (exp t / fact 5) * (7 / 10 :: real) ^ 5" by simp
  with t have "(\<Sum>m<5. ((7 / 10 :: real) ^ m) / fact m) \<le> exp (7 / 10)" by linarith
  moreover have "(2::real) < (\<Sum>m<5. ((7 / 10) ^ m) / fact m)"
    by (simp add: lessThan_nat_numeral fact_numeral power_divide)
  ultimately have "(2::real) < exp (7 / 10)" by linarith
  then have "ln (2::real) < ln (exp (7 / 10))"
    by (subst ln_less_cancel_iff) simp_all
  then show ?thesis by simp
qed

lemma ln2_lower: "693 / 1000 < ln (2::real)"
proof -
  obtain t where t: "exp (- (693 / 1000) :: real) =
      (\<Sum>m<8. ((- (693 / 1000)) ^ m) / fact m) + (exp t / fact 8) * (- (693 / 1000)) ^ 8"
    using Maclaurin_exp_le [of "- (693 / 1000)" 8] by blast
  have "0 \<le> (exp t / fact 8) * (- (693 / 1000) :: real) ^ 8" by simp
  with t have "(\<Sum>m<8. ((- (693 / 1000) :: real) ^ m) / fact m) \<le> exp (- (693 / 1000))" by linarith
  moreover have "(1 / 2 ::real) < (\<Sum>m<8. ((- (693 / 1000)) ^ m) / fact m)"
    by (simp add: lessThan_nat_numeral fact_numeral power_divide)
  ultimately have "(1 / 2 ::real) < exp (- (693 / 1000))" by linarith
  then have "exp (693 / 1000 :: real) < 2"
    by (simp add: exp_minus field_simps)
  then have "ln (exp (693 / 1000 :: real)) < ln 2"
    by (subst ln_less_cancel_iff) simp_all
  then show ?thesis by simp
qed







subsection \<open>Building an index: insertion and blinding\<close>

lemma set_positions_props:
  "set_positions bits ps = Inr bits' \<Longrightarrow>
   length bits' = length bits \<and> list_all (\<lambda>p. unat p < length bits \<and> bits' ! unat p) ps \<and>
   (\<forall>i < length bits. bits ! i \<longrightarrow> bits' ! i)"
proof (induction ps arbitrary: bits)
  case Nil
  then show ?case by simp
next
  case (Cons p ps)
  from Cons.prems have p: "unat p < length bits"
    and r: "set_positions (bits[unat p := True]) ps = Inr bits'"
    by (auto split: if_splits)
  from Cons.IH [OF r] have
    l: "length bits' = length bits"
    and c: "list_all (\<lambda>q. unat q < length bits \<and> bits' ! unat q) ps"
    and m: "\<forall>i < length bits. (bits[unat p := True]) ! i \<longrightarrow> bits' ! i"
    by simp_all
  from m p have "bits' ! unat p" by simp
  moreover have "\<forall>i < length bits. bits ! i \<longrightarrow> bits' ! i"
    using m by (metis nth_list_update_eq nth_list_update_neq)
  ultimately show ?case using l c p by simp
qed

lemma set_positions_single:
  "set_positions bits [p] = Inr bits' \<Longrightarrow> unat p < length bits \<and> bits' = bits[unat p := True]"
  by (auto split: if_splits)

lemma check_positions_covered:
  "list_all (\<lambda>p. unat p < length bits \<and> bits ! unat p) ps \<Longrightarrow>
   check_positions bits ps e = Inr e"
  by (induction ps arbitrary: e) auto

lemma covered_mono:
  "list_all (\<lambda>p. unat p < length bits \<and> bits ! unat p) ps \<Longrightarrow>
   length bits' = length bits \<Longrightarrow> \<forall>i < length bits. bits ! i \<longrightarrow> bits' ! i \<Longrightarrow>
   list_all (\<lambda>p. unat p < length bits' \<and> bits' ! unat p) ps"
  by (induction ps) auto

lemma Add_Inr:
  assumes "Add bf codewords = Inr bf'"
  shows "\<exists>ps bits. findPositions codewords (word_of_nat (length (BitArray bf))) = Inr ps \<and>
           set_positions (BitArray bf) ps = Inr bits \<and> bf' = bf\<lparr>BitArray := bits\<rparr>"
  using assms by (auto simp: Add_def split: sum.splits)

lemma Add_props:
  assumes "Add bf codewords = Inr bf'"
  shows "length (BitArray bf') = length (BitArray bf) \<and>
         (\<forall>i < length (BitArray bf). BitArray bf ! i \<longrightarrow> BitArray bf' ! i) \<and>
         (\<exists>ps. findPositions codewords (word_of_nat (length (BitArray bf))) = Inr ps \<and>
               list_all (\<lambda>p. unat p < length (BitArray bf') \<and> BitArray bf' ! unat p) ps)"
proof -
  from Add_Inr [OF assms] obtain ps bits where
    f: "findPositions codewords (word_of_nat (length (BitArray bf))) = Inr ps"
    and s: "set_positions (BitArray bf) ps = Inr bits"
    and b: "bf' = bf\<lparr>BitArray := bits\<rparr>"
    by blast
  from set_positions_props [OF s] f b show ?thesis by simp
qed

lemma Search_covered:
  assumes "findPositions codewords (word_of_nat (length (BitArray bf))) = Inr ps"
    and "list_all (\<lambda>p. unat p < length (BitArray bf) \<and> BitArray bf ! unat p) ps"
  shows "Search bf codewords = Inr True"
  using assms by (simp add: Search_def check_positions_covered)

lemma inserted_mono:
  "inserted H fname hashKeys bits w \<Longrightarrow> length bits' = length bits \<Longrightarrow>
   \<forall>i < length bits. bits ! i \<longrightarrow> bits' ! i \<Longrightarrow> inserted H fname hashKeys bits' w"
  unfolding inserted_def using covered_mono by fastforce

lemma add_keywords_props:
  "add_keywords H fname hashKeys sIndex kws = Inr sIndex' \<Longrightarrow>
   length (BitArray (Index sIndex')) = length (BitArray (Index sIndex)) \<and>
   (\<forall>i < length (BitArray (Index sIndex)).
      BitArray (Index sIndex) ! i \<longrightarrow> BitArray (Index sIndex') ! i) \<and>
   list_all (inserted H fname hashKeys (BitArray (Index sIndex'))) kws"
proof (induction kws arbitrary: sIndex)
  case Nil
  then show ?case by simp
next
  case (Cons w kws)
  let ?cw = "BuildCodewords H fname (BuildTrapdoors H w hashKeys)"
  from Cons.prems obtain bf where
    a: "Add (Index sIndex) ?cw = Inr bf"
    and r: "add_keywords H fname hashKeys
              ((Build H sIndex fname w hashKeys)\<lparr>Index := bf\<rparr>) kws = Inr sIndex'"
    by (auto simp: Build_def Let_def split: sum.splits)
  from Add_props [OF a] have
    al: "length (BitArray bf) = length (BitArray (Index sIndex))"
    and am: "\<forall>i < length (BitArray (Index sIndex)). BitArray (Index sIndex) ! i \<longrightarrow> BitArray bf ! i"
    and ai: "inserted H fname hashKeys (BitArray bf) w"
    by (auto simp: inserted_def)
  from Cons.IH [OF r] have
    l: "length (BitArray (Index sIndex')) = length (BitArray bf)"
    and m: "\<forall>i < length (BitArray bf). BitArray bf ! i \<longrightarrow> BitArray (Index sIndex') ! i"
    and i: "list_all (inserted H fname hashKeys (BitArray (Index sIndex'))) kws"
    by simp_all
  have "inserted H fname hashKeys (BitArray (Index sIndex')) w"
    using inserted_mono [OF ai l m] .
  moreover have "\<forall>i < length (BitArray (Index sIndex)).
      BitArray (Index sIndex) ! i \<longrightarrow> BitArray (Index sIndex') ! i"
    using am m al by simp
  ultimately show ?case using l al i by simp
qed

lemma Blind_props:
  assumes "Blind si numKeywords docSize numKeys rng = Inr (si', rng')"
  shows "\<exists>randomBytes.
           int (length randomBytes) = (docSize - numKeywords) * numKeys \<and>
           rng = randomBytes @ rng' \<and>
           Add (Index si) [randomBytes] = Inr (Index si') \<and>
           Trapdoors si' = Trapdoors si \<and> Codewords si' = Codewords si"
proof -
  let ?b = "(docSize - numKeywords) * numKeys"
  from assms obtain randomBytes bf where
    g: "GenerateRandomBytes ?b rng = Inr (randomBytes, rng')"
    and a: "Add (Index si) [randomBytes] = Inr bf"
    and s: "si' = si\<lparr>Index := bf\<rparr>"
    by (auto simp: Blind_def Let_def errorCheck_def split: sum.splits failure.splits)
  from g have "0 \<le> ?b" and "nat ?b \<le> length rng"
    and "randomBytes = take (nat ?b) rng" and "rng' = drop (nat ?b) rng"
    by (auto simp: GenerateRandomBytes_def split: if_splits)
  then have "int (length randomBytes) = ?b" and "rng = randomBytes @ rng'"
    by simp_all
  with a s show ?thesis by auto
qed

lemma findPositions_single:
  "findPositions [c] m = Inr ps \<Longrightarrow> ps = [fst (Uvarint c) mod m]"
  by (simp split: if_splits)

lemma Add_single:
  assumes "Add bf [c] = Inr bf'"
  shows "\<exists>i < length (BitArray bf). BitArray bf' = (BitArray bf)[i := True]"
proof -
  from Add_Inr [OF assms] obtain ps bits where
    f: "findPositions [c] (word_of_nat (length (BitArray bf))) = Inr ps"
    and s: "set_positions (BitArray bf) ps = Inr bits"
    and b: "bf' = bf\<lparr>BitArray := bits\<rparr>"
    by blast
  note s' = s [unfolded findPositions_single [OF f]]
  from set_positions_single [OF s'] b show ?thesis
    by (intro exI [of _ "unat (fst (Uvarint c) mod word_of_nat (length (BitArray bf)))"]) simp
qed

text \<open>
  An index built for one keyword with one key, used by the witnesses below.
\<close>

lemma Create_1_1: "Create 1 1 S_F = Inr \<lparr>BitArray = [False, False]\<rparr>"
proof -
  have pos: "0 < ln (2::real)" by simp
  have "2 * ln (2::real) < 3 / 2" using ln2_upper by simp
  then have a: "2 < (3 / 2) / ln (2::real)" using pos by (simp add: field_simps)
  have "3 / 2 < (22 / 10) * ln (2::real)" using ln2_lower by simp
  then have b: "(3 / 2) / ln (2::real) < 22 / 10" using pos by (simp add: field_simps)
  have x: "(real_of_int 1 * S_F * real_of_int 1) / ln 2 = (3 / 2) / ln 2"
    by (simp add: S_F_def)
  have "Create 1 1 S_F = Inr \<lparr>BitArray = replicate (nat 2) False\<rparr>"
    using a b by (intro Create_nearest_int) (simp_all add: S_F_def)
  then show ?thesis by (simp add: numeral_2_eq_2)
qed

lemma Uvarint_single: "b < 0x80 \<Longrightarrow> Uvarint [b] = (ucast b, 1)"
  by (simp add: Uvarint_def)

lemma Uvarint_zeros: "Uvarint [0, 0, 0, 0] = (0, 1)"
  by (simp add: Uvarint_def)

lemma build_index_example:
  "build_index (\<lambda>m k. [word_of_nat (length m)]) [[0]]
     \<lparr>Filepath = ''docs/alice.txt'', RawText = ''alice'', Keywords = [''alice'']\<rparr> [0, 0, 0, 0] =
   Inr (\<lparr>Trapdoors = [[5]], Codewords = [[9]], Index = \<lparr>BitArray = [True, True]\<rparr>\<rparr>, [])"
proof -
  have f: "fileName ''docs/alice.txt'' = ''alice.txt''"
    by code_simp
  have a: "Add \<lparr>BitArray = [False, False]\<rparr> [[9]] = Inr \<lparr>BitArray = [False, True]\<rparr>"
    by (simp add: Add_def Uvarint_single)
  have b: "Add \<lparr>BitArray = [False, True]\<rparr> [[0, 0, 0, 0]] = Inr \<lparr>BitArray = [True, True]\<rparr>"
    by (simp add: Add_def Uvarint_zeros)
  have g: "GenerateRandomBytes 4 [0, 0, 0, 0] = Inr ([0, 0, 0, 0], [])"
    by (simp add: GenerateRandomBytes_def)
  show ?thesis
    by (simp add: build_index_def Create_1_1 f Build_def BuildTrapdoors_def BuildCodewords_def
        a Blind_def g b errorCheck_def)
qed

text \<open>
  C1 (no false negatives). When the builder completes the index of a document
  (\<open>Create\<close>, one \<open>Build\<close> and \<open>Add\<close> per keyword, \<open>Blind\<close>), then for every keyword \<open>w\<close> of
  the document the codewords recomputed from the trapdoors of \<open>w\<close> (the tag of \<open>w\<close> under
  each key, then the tag of the file name under each of these) are found by \<open>Search\<close> in
  the built index: it returns true and does not fault.
\<close>

theorem no_false_negatives:
  assumes "build_index H hashKeys text rng = Inr (sIndex, rng')"
    and "w \<in> set (Keywords text)"
  shows "Search (Index sIndex)
           (BuildCodewords H (fileName (Filepath text)) (BuildTrapdoors H w hashKeys)) = Inr True"
proof -
  let ?fname = "fileName (Filepath text)"
  from assms(1) obtain bf sIndex0 where
    c: "Create (int (length (Keywords text))) (int (length hashKeys)) S_F = Inr bf"
    and k: "add_keywords H ?fname hashKeys \<lparr>Trapdoors = [], Codewords = [], Index = bf\<rparr>
              (Keywords text) = Inr sIndex0"
    and b: "Blind sIndex0 (int (length (Keywords text))) (int (length (RawText text)))
              (int (length hashKeys)) rng = Inr (sIndex, rng')"
    by (auto simp: build_index_def Let_def split: sum.splits)
  from add_keywords_props [OF k] assms(2)
  have i: "inserted H ?fname hashKeys (BitArray (Index sIndex0)) w"
    by (simp add: list_all_iff)
  from Blind_props [OF b] obtain randomBytes where
    "Add (Index sIndex0) [randomBytes] = Inr (Index sIndex)" by blast
  from Add_props [OF this] have
    "length (BitArray (Index sIndex)) = length (BitArray (Index sIndex0))"
    and "\<forall>i < length (BitArray (Index sIndex0)).
           BitArray (Index sIndex0) ! i \<longrightarrow> BitArray (Index sIndex) ! i"
    by simp_all
  from inserted_mono [OF i this]
  show ?thesis
    unfolding inserted_def using Search_covered by blast
qed

theorem no_false_negatives_witness:
  "build_index (\<lambda>m k. [word_of_nat (length m)]) [[0]]
     \<lparr>Filepath = ''docs/alice.txt'', RawText = ''alice'', Keywords = [''alice'']\<rparr> [0, 0, 0, 0] =
   Inr (\<lparr>Trapdoors = [[5]], Codewords = [[9]], Index = \<lparr>BitArray = [True, True]\<rparr>\<rparr>, []) \<and>
   ''alice'' \<in> set [''alice''] \<and>
   Search \<lparr>BitArray = [True, True]\<rparr>
     (BuildCodewords (\<lambda>m k. [word_of_nat (length m)]) (fileName ''docs/alice.txt'')
        (BuildTrapdoors (\<lambda>m k. [word_of_nat (length m)]) ''alice'' [[0]])) = Inr True"
  using no_false_negatives [OF build_index_example, of "''alice''"] build_index_example
  by simp

text \<open>
  C6 (blinding). After the keywords are inserted the builder draws from the random
  source exactly \<open>(L - n) * k\<close> bytes (\<open>L\<close> the length of the raw text, \<open>n\<close> the number of
  keywords, \<open>k\<close> the number of keys) and the built index is the result of one \<open>Add\<close> of
  the tuple whose only element is that buffer: it differs from the index before
  blinding in at most one position, which is set.
\<close>

theorem blinding_is_one_add:
  assumes "build_index H hashKeys text rng = Inr (sIndex, rng')"
  shows "\<exists>bf sIndex0 randomBytes.
           Create (int (length (Keywords text))) (int (length hashKeys)) S_F = Inr bf \<and>
           add_keywords H (fileName (Filepath text)) hashKeys
             \<lparr>Trapdoors = [], Codewords = [], Index = bf\<rparr> (Keywords text) = Inr sIndex0 \<and>
           int (length randomBytes) =
             (int (length (RawText text)) - int (length (Keywords text))) * int (length hashKeys) \<and>
           rng = randomBytes @ rng' \<and>
           Add (Index sIndex0) [randomBytes] = Inr (Index sIndex) \<and>
           (\<exists>i < length (BitArray (Index sIndex0)).
              BitArray (Index sIndex) = (BitArray (Index sIndex0))[i := True])"
proof -
  from assms obtain bf sIndex0 where
    c: "Create (int (length (Keywords text))) (int (length hashKeys)) S_F = Inr bf"
    and k: "add_keywords H (fileName (Filepath text)) hashKeys
              \<lparr>Trapdoors = [], Codewords = [], Index = bf\<rparr> (Keywords text) = Inr sIndex0"
    and b: "Blind sIndex0 (int (length (Keywords text))) (int (length (RawText text)))
              (int (length hashKeys)) rng = Inr (sIndex, rng')"
    by (auto simp: build_index_def Let_def split: sum.splits)
  from Blind_props [OF b] obtain randomBytes where
    r: "int (length randomBytes) =
          (int (length (RawText text)) - int (length (Keywords text))) * int (length hashKeys)"
       "rng = randomBytes @ rng'"
       "Add (Index sIndex0) [randomBytes] = Inr (Index sIndex)"
    by blast
  from Add_single [OF r(3)] c k r show ?thesis by blast
qed



theorem blinding_is_one_add_witness:
  "build_index (\<lambda>m k. [word_of_nat (length m)]) [[0]]
     \<lparr>Filepath = ''docs/alice.txt'', RawText = ''alice'', Keywords = [''alice'']\<rparr> [0, 0, 0, 0] =
   Inr (\<lparr>Trapdoors = [[5]], Codewords = [[9]], Index = \<lparr>BitArray = [True, True]\<rparr>\<rparr>, []) \<and>
   (\<exists>(sIndex0 :: SecureIndex) randomBytes.
      int (length randomBytes) = 4 \<and> [0, 0, 0, 0] = randomBytes \<and>
      Add (Index sIndex0) [randomBytes] = Inr \<lparr>BitArray = [True, True]\<rparr>)"
proof -
  from blinding_is_one_add [OF build_index_example]
  obtain sIndex0 :: SecureIndex and randomBytes :: "byte list" where
    r: "int (length randomBytes) = 4" "[0, 0, 0, 0] = randomBytes"
      "Add (Index sIndex0) [randomBytes] = Inr \<lparr>BitArray = [True, True]\<rparr>"
    by (elim exE conjE) simp
  have "\<exists>(sIndex0 :: SecureIndex) randomBytes.
      int (length randomBytes) = 4 \<and> [0, 0, 0, 0] = randomBytes \<and>
      Add (Index sIndex0) [randomBytes] = Inr \<lparr>BitArray = [True, True]\<rparr>"
    using r by (intro exI [of _ sIndex0] exI [of _ randomBytes] conjI)
  with build_index_example show ?thesis by (rule conjI)
qed

subsection \<open>The codec: keys and index bits through the CSV files\<close>

lemma low_nibble: "(v :: byte) AND 0x0f = take_bit 4 v"
proof -
  have "(0x0f :: byte) = mask 4" by (simp add: mask_eq_exp_minus_1)
  then show ?thesis by (simp add: take_bit_eq_mask)
qed

lemma nibbles: "push_bit 4 (drop_bit 4 v) OR (v AND 0x0f) = (v :: byte)"
  unfolding low_nibble
  by (rule bit_word_eqI)
     (auto simp: bit_or_iff bit_push_bit_iff bit_drop_bit_eq bit_take_bit_iff not_less)

lemma nibble_bounds: "unat (drop_bit 4 (v :: byte)) < 16 \<and> unat (v AND 0x0f) < 16"
proof -
  have "unat (drop_bit 4 v) = unat v div 16"
    by (simp add: drop_bit_eq_div unat_div)
  moreover have "unat v < 256" using unsigned_less [of v, where ?'a = nat] by simp
  moreover have "unat (take_bit 4 v) = unat v mod 16"
    by (simp add: take_bit_eq_mod unat_mod)
  ultimately show ?thesis by (simp add: low_nibble)
qed

lemma hex_digits: "list_all (\<lambda>n. fromHexChar (hextable ! n) = Some (word_of_nat n)) [0..<16]"
  by code_simp

lemma fromHexChar_hextable: "n < 16 \<Longrightarrow> fromHexChar (hextable ! n) = Some (word_of_nat n)"
  using hex_digits by (simp add: list_all_iff)

lemma DecodeString_EncodeToString: "DecodeString (EncodeToString src) = Inr src"
proof (induction src)
  case Nil
  show ?case by (simp add: EncodeToString_def)
next
  case (Cons v src)
  have e: "EncodeToString (v # src) =
             hextable ! unat (drop_bit 4 v) # hextable ! unat (v AND 0x0f) # EncodeToString src"
    by (simp add: EncodeToString_def)
  have h: "fromHexChar (hextable ! unat (drop_bit 4 v)) = Some (drop_bit 4 v)"
    using fromHexChar_hextable [of "unat (drop_bit 4 v)"] nibble_bounds [of v] by simp
  have l: "fromHexChar (hextable ! unat (v AND 0x0f)) = Some (v AND 0x0f)"
    using fromHexChar_hextable [of "unat (v AND 0x0f)"] nibble_bounds [of v] by simp
  show ?case
    unfolding e by (simp add: h l Cons.IH nibbles)
qed

lemma length_hextable: "length hextable = 16"
  by (simp add: hextable_def)

lemma plain_EncodeToString: "plain (EncodeToString src)"
proof -
  have "\<And>n. n < 16 \<Longrightarrow> hextable ! n \<in> set hextable"
    by (simp add: length_hextable)
  then show ?thesis
    unfolding plain_def EncodeToString_def using nibble_bounds
    by (induction src) auto
qed

lemma hextable_no_special:
  "CHR '','' \<notin> set hextable \<and> CHR 0x22 \<notin> set hextable \<and> CHR 0x0A \<notin> set hextable \<and>
   CHR 0x0D \<notin> set hextable \<and> CHR 0x5C \<notin> set hextable \<and> CHR '' '' \<notin> set hextable \<and>
   CHR 0x09 \<notin> set hextable \<and> CHR 0x0B \<notin> set hextable \<and> CHR 0x0C \<notin> set hextable"
  by (simp add: hextable_def)

lemma plain_no_special:
  "plain field \<Longrightarrow> CHR '','' \<notin> set field \<and> CHR 0x22 \<notin> set field \<and>
     CHR 0x0A \<notin> set field \<and> CHR 0x0D \<notin> set field"
  using hextable_no_special by (auto simp: plain_def)

lemma plain_write_field: "plain field \<Longrightarrow> write_field field = field"
proof -
  assume p: "plain field"
  have "\<not> fieldNeedsQuotes field"
  proof (cases field)
    case Nil
    then show ?thesis by (simp add: fieldNeedsQuotes_def)
  next
    case (Cons c cs)
    with p have "c \<in> set hextable" by (simp add: plain_def)
    then have "c \<notin> {CHR '' '', CHR 0x09, CHR 0x0A, CHR 0x0B, CHR 0x0C, CHR 0x0D}" and "c \<noteq> CHR 0x5C"
      using hextable_no_special by auto
    with Cons plain_no_special [OF p] show ?thesis
      by (auto simp: fieldNeedsQuotes_def)
  qed
  then show ?thesis by (simp add: write_field_def)
qed

lemma split_char_no_sep: "sep \<notin> set s \<Longrightarrow> split_char sep cur s = [cur @ s]"
  by (induction s arbitrary: cur) auto

lemma split_char_append:
  "sep \<notin> set s \<Longrightarrow> split_char sep cur (s @ sep # rest) = (cur @ s) # split_char sep [] rest"
  by (induction s arbitrary: cur) auto

lemma split_char_join:
  "list_all plain fs \<Longrightarrow> fs \<noteq> [] \<Longrightarrow>
   split_char (CHR '','') cur (join_fields fs) = (cur @ hd fs) # tl fs"
proof (induction fs arbitrary: cur rule: join_fields.induct)
  case 1
  then show ?case by simp
next
  case (2 field)
  then show ?case
    using plain_no_special [of field] by (simp add: plain_write_field split_char_no_sep)
next
  case (3 field v va)
  then have "split_char (CHR '','') [] (join_fields (v # va)) = v # va"
    by simp
  with 3 show ?case
    using plain_no_special [of field] by (simp add: plain_write_field split_char_append)
qed

lemma join_fields_chars:
  "list_all plain fs \<Longrightarrow> set (join_fields fs) \<subseteq> insert (CHR '','') (set hextable)"
proof (induction fs rule: join_fields.induct)
  case 1
  then show ?case by simp
next
  case (2 field)
  then show ?case by (auto simp: plain_write_field plain_def)
next
  case (3 field v va)
  then have "set (join_fields (v # va)) \<subseteq> insert (CHR '','') (set hextable)"
    by simp
  moreover from 3 have "set field \<subseteq> set hextable" by (simp add: plain_def)
  ultimately show ?case using 3 by (auto simp: plain_write_field)
qed

lemma join_fields_Nil_iff: "list_all plain fs \<Longrightarrow> join_fields fs = [] \<longleftrightarrow> fs = [] \<or> fs = [[]]"
  by (induction fs rule: join_fields.induct) (auto simp: plain_write_field)

lemma read_lines_one: "CHR 0x0A \<notin> set s \<Longrightarrow> read_lines cur (s @ [CHR 0x0A]) = [drop_cr (cur @ s)]"
  by (induction s arbitrary: cur) auto

lemma check_fields_plain: "list_all plain fs \<Longrightarrow> check_fields fs = Inr fs"
proof (induction fs)
  case Nil
  show ?case by simp
next
  case (Cons f fs)
  then have "CHR 0x22 \<notin> set f" using plain_no_special [of f] by simp
  moreover then have "\<not> (f \<noteq> [] \<and> hd f = CHR 0x22)" by (cases f) auto
  ultimately show ?case using Cons by simp
qed

lemma csv_round_trip:
  assumes "list_all plain fs"
  shows "csv_NewReader (csv_Write fs) = (if fs = [] \<or> fs = [[]] then [] else [Inr fs])"
proof -
  let ?j = "join_fields fs"
  from join_fields_chars [OF assms] have nl: "CHR 0x0A \<notin> set ?j" and cr: "CHR 0x0D \<notin> set ?j"
    using hextable_no_special by auto
  from cr have "drop_cr ?j = ?j"
    by (cases ?j rule: rev_cases) (auto simp: drop_cr_def)
  with nl have lines: "read_lines [] (csv_Write fs) = [?j]"
    by (simp add: csv_Write_def read_lines_one)
  show ?thesis
  proof (cases "fs = [] \<or> fs = [[]]")
    case True
    with join_fields_Nil_iff [OF assms] have "?j = []" by simp
    with True lines show ?thesis by (simp add: csv_NewReader_def)
  next
    case False
    with join_fields_Nil_iff [OF assms] have ne: "?j \<noteq> []" by simp
    from False have "fs \<noteq> []" by simp
    from split_char_join [OF assms this, of "[]"] have "split_char (CHR '','') [] ?j = fs"
      using \<open>fs \<noteq> []\<close> by simp
    then have "parse_record ?j = Inr fs"
      by (simp add: parse_record_def check_fields_plain [OF assms])
    with False ne lines show ?thesis by (simp add: csv_NewReader_def)
  qed
qed

lemma decode_keys_encoded: "decode_keys (map EncodeToString K) keys = Inr (keys @ K)"
  by (induction K arbitrary: keys) (simp_all add: DecodeString_EncodeToString)

lemma EncodeToString_Nil_iff: "EncodeToString k = [] \<longleftrightarrow> k = []"
  by (cases k) (simp_all add: EncodeToString_def)

lemma key_bytes_round_trip:
  assumes "K \<noteq> [[]]"
  shows "readKeyfile_loop (csv_NewReader (csv_Write (map EncodeToString K))) [] = Inr K"
proof -
  have p: "list_all plain (map EncodeToString K)"
    by (simp add: list_all_iff plain_EncodeToString)
  have "map EncodeToString K = [[]] \<longleftrightarrow> K = [[]]"
    by (cases K) (auto simp: EncodeToString_Nil_iff)
  with assms csv_round_trip [OF p] show ?thesis
    by (simp add: decode_keys_encoded)
qed

lemma index_bits_round_trip:
  "ReadSecureIndexFile_loop
     (csv_NewReader (csv_Write (map (\<lambda>v. if v then ''1'' else ''0'') B))) [] = Inr B"
proof -
  let ?out = "map (\<lambda>v. if v then ''1'' else ''0'') B"
  have pf: "\<And>v. plain (if v then ''1'' else ''0'')"
    by (simp add: plain_def hextable_def)
  have p: "list_all plain ?out"
    by (induction B) (simp_all only: list.map list.pred_inject pf simp_thms)
  have ne: "?out \<noteq> [[]]" by (cases B) auto
  have inv: "map (\<lambda>field. field \<noteq> ''0'') ?out = B"
    by (induction B) auto
  from csv_round_trip [OF p] ne inv show ?thesis
    by (cases "B = []") simp_all
qed

lemma writeToCSV_content:
  "writeToCSV fs path data = Inr fs' \<Longrightarrow> fs' path = Some (File (csv_Write data))"
  by (auto simp: writeToCSV_def split: option.splits node.splits)

text \<open>
  C7 (codec round-trip). For every key schedule \<open>K\<close>, a non-empty list of non-empty keys
  (in particular of 128-bit keys), reading the key file written for \<open>K\<close> yields \<open>K\<close>,
  order and bytes preserved; and for every bit array \<open>B\<close> of length at least 1, reading
  the index file written for \<open>B\<close> yields \<open>B\<close>, bit for bit.
\<close>

theorem codec_round_trip:
  assumes "K \<noteq> []" and "\<forall>key \<in> set K. key \<noteq> []"
    and "1 \<le> length B"
    and "writeKeyFile fs filepath K = Inr fs1"
    and "writeSecureIndexFile fs filepath B = Inr fs2"
  shows "readKeyfile fs1 (filepath @ ''.sindex.private'') = Inr K \<and>
         ReadSecureIndexFile fs2 (filepath @ ''.sindex'') = Inr B"
proof -
  from assms(1,2) have ne: "K \<noteq> [[]]" by auto
  from assms(4) have "fs1 (filepath @ ''.sindex.private'') = Some (File (csv_Write (map EncodeToString K)))"
    by (simp add: writeKeyFile_def writeToCSV_content)
  then have k: "readKeyfile fs1 (filepath @ ''.sindex.private'') = Inr K"
    using key_bytes_round_trip [OF ne] by (simp add: readKeyfile_def open_read_def)
  from assms(5) have "fs2 (filepath @ ''.sindex'') =
      Some (File (csv_Write (map (\<lambda>v. if v then ''1'' else ''0'') B)))"
    by (simp add: writeSecureIndexFile_def writeToCSV_content)
  then have "ReadSecureIndexFile fs2 (filepath @ ''.sindex'') = Inr B"
    using index_bits_round_trip [of B] by (simp add: ReadSecureIndexFile_def open_read_def)
  with k show ?thesis by simp
qed

theorem codec_round_trip_witness:
  "[[0x00, 0x00, 0x00, 0x00, 0x00, 0x00, 0x00, 0x00, 0x00, 0x00, 0x00, 0x00, 0x00, 0x00, 0x00, 0x00],
    [0x11, 0x11, 0x11, 0x11, 0x11, 0x11, 0x11, 0x11, 0x11, 0x11, 0x11, 0x11, 0x11, 0x11, 0x11, 0x11 :: byte]]
     \<noteq> [] \<and>
   [] \<notin> set
     [[0x00, 0x00, 0x00, 0x00, 0x00, 0x00, 0x00, 0x00, 0x00, 0x00, 0x00, 0x00, 0x00, 0x00, 0x00, 0x00],
      [0x11, 0x11, 0x11, 0x11, 0x11, 0x11, 0x11, 0x11, 0x11, 0x11, 0x11, 0x11, 0x11, 0x11, 0x11, 0x11 :: byte]] \<and>
   1 \<le> length [True, False, True] \<and>
   writeKeyFile Map.empty ''doc.txt''
     [[0x00, 0x00, 0x00, 0x00, 0x00, 0x00, 0x00, 0x00, 0x00, 0x00, 0x00, 0x00, 0x00, 0x00, 0x00, 0x00],
      [0x11, 0x11, 0x11, 0x11, 0x11, 0x11, 0x11, 0x11, 0x11, 0x11, 0x11, 0x11, 0x11, 0x11, 0x11, 0x11]] =
     Inr [''doc.txt.sindex.private'' \<mapsto>
            File (''00000000000000000000000000000000,11111111111111111111111111111111''
                  @ [CHR 0x0A])] \<and>
   writeSecureIndexFile Map.empty ''doc.txt'' [True, False, True] =
     Inr [''doc.txt.sindex'' \<mapsto> File (''1,0,1'' @ [CHR 0x0A])] \<and>
   readKeyfile
     [''doc.txt.sindex.private'' \<mapsto>
        File (''00000000000000000000000000000000,11111111111111111111111111111111''
              @ [CHR 0x0A])]
     ''doc.txt.sindex.private'' =
     Inr [[0x00, 0x00, 0x00, 0x00, 0x00, 0x00, 0x00, 0x00, 0x00, 0x00, 0x00, 0x00, 0x00, 0x00, 0x00, 0x00],
          [0x11, 0x11, 0x11, 0x11, 0x11, 0x11, 0x11, 0x11, 0x11, 0x11, 0x11, 0x11, 0x11, 0x11, 0x11, 0x11]] \<and>
   ReadSecureIndexFile [''doc.txt.sindex'' \<mapsto> File (''1,0,1'' @ [CHR 0x0A])]
     ''doc.txt.sindex'' = Inr [True, False, True]"
proof -
  let ?k0 = "[0x00, 0x00, 0x00, 0x00, 0x00, 0x00, 0x00, 0x00, 0x00, 0x00, 0x00, 0x00, 0x00, 0x00, 0x00, 0x00 :: byte]"
  let ?k1 = "[0x11, 0x11, 0x11, 0x11, 0x11, 0x11, 0x11, 0x11, 0x11, 0x11, 0x11, 0x11, 0x11, 0x11, 0x11, 0x11 :: byte]"
  have e0: "EncodeToString ?k0 = ''00000000000000000000000000000000''" by code_simp
  have e1: "EncodeToString ?k1 = ''11111111111111111111111111111111''" by code_simp
  have j: "join_fields (map EncodeToString [?k0, ?k1]) =
             EncodeToString ?k0 @ '','' @ EncodeToString ?k1"
    by (simp add: plain_write_field plain_EncodeToString)
  have q3: "\<not> fieldNeedsQuotes ''1''" and q4: "\<not> fieldNeedsQuotes ''0''"
    by (simp_all add: fieldNeedsQuotes_def)
  have n: "[?k0, ?k1] \<noteq> []" by simp
  have a: "\<forall>key \<in> set [?k0, ?k1]. key \<noteq> []" by simp
  have b: "1 \<le> length [True, False, True]" by simp
  have w1: "writeKeyFile Map.empty ''doc.txt'' [?k0, ?k1] =
     Inr [''doc.txt.sindex.private'' \<mapsto>
            File (''00000000000000000000000000000000,11111111111111111111111111111111''
                  @ [CHR 0x0A])]"
    unfolding writeKeyFile_def Let_def writeToCSV_def csv_Write_def j e0 e1 by simp
  have w2: "writeSecureIndexFile Map.empty ''doc.txt'' [True, False, True] =
     Inr [''doc.txt.sindex'' \<mapsto> File (''1,0,1'' @ [CHR 0x0A])]"
    by (simp add: writeSecureIndexFile_def writeToCSV_def csv_Write_def write_field_def q3 q4)
  from codec_round_trip [OF n a b w1 w2] n w1 w2 show ?thesis by simp
qed

subsection \<open>Failures on the server\<close>




text \<open>
  A field other than \<open>"0"\<close> and \<open>"1"\<close> is not rejected by \<open>ReadSecureIndexFile\<close>: it is
  read as a set bit.
\<close>

lemma other_fields_are_set_bits:
  "ReadSecureIndexFile [''test/c.txt.sindex'' \<mapsto> File ''1,2,0''] ''test/c.txt.sindex'' =
     Inr [True, True, False]"
  by (simp add: ReadSecureIndexFile_def open_read_def csv_NewReader_def parse_record_def
      drop_cr_def)




subsection \<open>The position of a codeword\<close>

lemma unat_ucast_byte: "unat (ucast (b :: byte) :: 64 word) = unat b"
proof -
  have "unat b < 2 ^ 8" using unsigned_less [of b, where ?'a = nat] by simp
  then have "unat b < 2 ^ 64" by simp
  then show ?thesis by (simp add: unsigned_ucast_eq take_bit_nat_eq_self)
qed

lemma low7: "(b :: byte) AND 0x7f = take_bit 7 b"
proof -
  have "(0x7f :: byte) = mask 7" by (simp add: mask_eq_exp_minus_1)
  then show ?thesis by (simp add: take_bit_eq_mask)
qed

lemma unat_low7: "unat ((b :: byte) AND 0x7f) < 128"
proof -
  have "unat (take_bit 7 b) = unat b mod 128"
    by (simp add: take_bit_eq_mod unat_mod)
  then show ?thesis by (simp add: low7)
qed

lemma unat_below_0x80: "(b :: byte) < 0x80 \<Longrightarrow> unat b < 128"
  by (simp add: word_less_nat_alt)

lemma or_shifted:
  fixes x y :: "64 word"
  assumes "unat x < 2 ^ s"
  shows "x OR push_bit s y = word_of_nat (unat x + 2 ^ s * unat y)"
proof -
  have "x AND push_bit s y = 0"
  proof (rule bit_word_eqI)
    fix n
    assume "n < LENGTH(64)"
    show "bit (x AND push_bit s y) n = bit (0 :: 64 word) n"
    proof (cases "s \<le> n")
      case False
      then show ?thesis by (simp add: bit_and_iff bit_push_bit_iff)
    next
      case True
      then have "(2::nat) ^ s \<le> 2 ^ n" by simp
      with assms have "unat x < 2 ^ n" by linarith
      then have "unat x div 2 ^ n = 0" by simp
      then have "\<not> bit (unat x) n" by (simp add: bit_iff_odd)
      then have "\<not> bit x n" by (simp add: bit_unsigned_iff)
      then show ?thesis by (simp add: bit_and_iff)
    qed
  qed
  then have "x + push_bit s y = x OR push_bit s y"
    by (rule disjunctive_add_eq_or)
  then have "x OR push_bit s y = x + y * 2 ^ s"
    by (simp add: push_bit_eq_mult)
  also have "\<dots> = word_of_nat (unat x) + word_of_nat (unat y) * 2 ^ s"
    by simp
  also have "\<dots> = word_of_nat (unat x + 2 ^ s * unat y)"
    by (simp add: mult.commute)
  finally show ?thesis .
qed


lemma pow7_le: "i \<le> 8 \<Longrightarrow> (2::nat) ^ (7 * i) * 128 \<le> 2 ^ 63"
proof -
  assume "i \<le> 8"
  then have "(2::nat) ^ (7 * i + 7) \<le> 2 ^ 63"
    by (intro power_increasing) simp_all
  then show ?thesis by (simp add: power_add)
qed

lemma unat_of_nat_small: "n < 2 ^ 64 \<Longrightarrow> unat (word_of_nat n :: 64 word) = n"
  by (simp add: unat_of_nat)

lemma shifted_bound:
  fixes a p y :: nat
  assumes "a < p" and "y < 128"
  shows "a + p * y < p * 128"
proof -
  from assms(2) have "p * y \<le> p * 127" by simp
  with assms(1) have "a + p * y < p + p * 127" by linarith
  then show ?thesis by simp
qed

lemma uvarint_loop_spec:
  assumes "i \<le> 10" and "unat x < 2 ^ (7 * i)"
  shows "fst (uvarint_loop i x (7 * i) buf) =
           (case varint_spec (take (10 - i) buf) of
              Some v \<Rightarrow> decoded (unat x + 2 ^ (7 * i) * v)
            | None \<Rightarrow> 0)"
  using assms
proof (induction buf arbitrary: i x)
  case Nil
  show ?case by simp
next
  case (Cons b buf)
  show ?case
  proof (cases "i = 10")
    case True
    then show ?thesis by simp
  next
    case False
    with Cons.prems have i9: "i \<le> 9" by simp
    then have "10 - i = Suc (9 - i)" by simp
    then have tk: "take (10 - i) (b # buf) = b # take (9 - i) buf"
      by (simp only: take_Suc_Cons)
    show ?thesis
    proof (cases "b < 0x80")
      case True
      note small = unat_below_0x80 [OF True]
      have val: "x OR push_bit (7 * i) (ucast b) = word_of_nat (unat x + 2 ^ (7 * i) * unat b)"
        using or_shifted [OF Cons.prems(2), of "ucast b"] by (simp add: unat_ucast_byte)
      show ?thesis
      proof (cases "i = 9 \<and> 1 < b")
        case True
        then have "2 \<le> unat b" by (simp add: word_less_nat_alt)
        then have "(2::nat) ^ 63 * 2 \<le> 2 ^ 63 * unat b" by simp
        then have "\<not> unat x + 2 ^ (7 * i) * unat b < 2 ^ 64"
          using True by simp
        with True \<open>b < 0x80\<close> False show ?thesis
          by (simp add: tk decoded_def)
      next
        case nooverflow: False
        have "unat x + 2 ^ (7 * i) * unat b < 2 ^ 64"
        proof (cases "i = 9")
          case True
          with nooverflow have "unat b \<le> 1" by (simp add: word_less_nat_alt not_less word_le_nat_alt)
          then have "(2::nat) ^ 63 * unat b \<le> 2 ^ 63" by simp
          with Cons.prems(2) True show ?thesis by simp
        next
          case False
          with i9 have "i \<le> 8" by simp
          have "unat x + 2 ^ (7 * i) * unat b < 2 ^ (7 * i) * 128"
            using Cons.prems(2) small by (rule shifted_bound)
          also have "\<dots> \<le> 2 ^ 63" by (rule pow7_le [OF \<open>i \<le> 8\<close>])
          finally show ?thesis by simp
        qed
        moreover have "fst (uvarint_loop i x (7 * i) (b # buf)) = x OR push_bit (7 * i) (ucast b)"
          using nooverflow \<open>b < 0x80\<close> \<open>i \<noteq> 10\<close> by auto
        ultimately show ?thesis
          using \<open>b < 0x80\<close> by (simp only: tk val decoded_def varint_spec.simps if_True option.case)
      qed
    next
      case False
      note big = False
      show ?thesis
      proof (cases "i = 9")
        case True
        have "fst (uvarint_loop 10 (x OR push_bit 63 (ucast (b AND 0x7f))) 70 buf) = 0"
          by (cases buf) simp_all
        with True big show ?thesis by (simp add: tk)
      next
        case False
        with i9 have i8: "i \<le> 8" by simp
        let ?y = "unat (b AND 0x7f)"
        let ?x' = "x OR push_bit (7 * i) (ucast (b AND 0x7f))"
        have val: "?x' = word_of_nat (unat x + 2 ^ (7 * i) * ?y)"
          using or_shifted [OF Cons.prems(2), of "ucast (b AND 0x7f)"] by (simp add: unat_ucast_byte)
        have bound: "unat x + 2 ^ (7 * i) * ?y < 2 ^ (7 * i) * 128"
          using Cons.prems(2) unat_low7 [of b] by (rule shifted_bound)
        with pow7_le [OF i8] have "unat x + 2 ^ (7 * i) * ?y < 2 ^ 64" by simp
        then have ux: "unat ?x' = unat x + 2 ^ (7 * i) * ?y"
          by (simp only: val unat_of_nat_small)
        have inv: "unat ?x' < 2 ^ (7 * (i + 1))"
          using bound by (simp add: ux power_add)
        have le: "i + 1 \<le> 10" using i8 by simp
        have step: "fst (uvarint_loop i x (7 * i) (b # buf)) =
                      fst (uvarint_loop (i + 1) ?x' (7 * (i + 1)) buf)"
          using big \<open>i \<noteq> 10\<close> by (simp add: add.commute)
        have idx: "10 - (i + 1) = 9 - i" by simp
        have sum: "\<And>v. unat ?x' + 2 ^ (7 * (i + 1)) * v =
                        unat x + 2 ^ (7 * i) * (?y + 128 * v)"
          unfolding ux by (simp add: power_add algebra_simps)
        show ?thesis
          unfolding step Cons.IH [OF le inv] idx tk sum
          using big by (cases "varint_spec (take (9 - i) buf)") simp_all
      qed
    qed
  qed
qed

lemma Uvarint_spec:
  "fst (Uvarint buf) = (case varint_spec (take 10 buf) of Some v \<Rightarrow> decoded v | None \<Rightarrow> 0)"
  using uvarint_loop_spec [of 0 0 buf]
  by (cases "varint_spec (take 10 buf)") (simp_all add: Uvarint_def)


lemma unat_Uvarint: "unat (fst (Uvarint c)) = uvarint_value c"
  unfolding Uvarint_spec uvarint_value_def
  by (cases "varint_spec (take 10 c)") (simp_all add: decoded_def unat_of_nat_small)

lemma overflow_code:
  "findPositions [[0xFF, 0xFF, 0xFF, 0xFF, 0xFF, 0xFF, 0xFF, 0xFF, 0xFF, 0x02]] 10 = Inr [0]"
  by (simp add: Uvarint_def)

lemma unterminated:
  "findPositions [[0xFF, 0xFF]] 10 = Inr [0]"
  by (simp add: Uvarint_def)

lemma overflow_varint:
  "varint_spec [0xFF, 0xFF, 0xFF, 0xFF, 0xFF, 0xFF, 0xFF, 0xFF, 0xFF, 0x02] = Some 27670116110564327423"
  by simp

lemma overflow_spec:
  "spec_position [0xFF, 0xFF, 0xFF, 0xFF, 0xFF, 0xFF, 0xFF, 0xFF, 0xFF, 0x02] 10 = Some 7"
  unfolding spec_position_def overflow_varint by simp


text \<open>
  C5 (position function), as the claim states it: for the ten-byte codeword
  \<open>ff ff ff ff ff ff ff ff ff 02\<close>, whose varint does not fit 64 bits, and filter size 10
  the low 64 bits of the decoded value give position 7, but \<open>findPositions\<close> gives
  position 0: on overflow \<open>binary.Uvarint\<close> returns the value 0.
\<close>

theorem overflow_position_is_zero:
  "spec_position [0xFF, 0xFF, 0xFF, 0xFF, 0xFF, 0xFF, 0xFF, 0xFF, 0xFF, 0x02] 10 = Some 7 \<and>
   findPositions [[0xFF, 0xFF, 0xFF, 0xFF, 0xFF, 0xFF, 0xFF, 0xFF, 0xFF, 0x02]] 10 = Inr [0]"
  using overflow_spec overflow_code by (rule conjI)

text \<open>
  C5 (position function), amended: for every codeword \<open>c\<close> and every filter of size
  \<open>m \<ge> 1\<close>, \<open>Add\<close> sets and \<open>Search\<close> tests the same position \<open>x mod m\<close>, where \<open>x\<close> is the
  value of the little-endian base-128 varint at the start of \<open>c\<close> when that varint ends
  within the first ten bytes and fits 64 bits, and \<open>x = 0\<close> otherwise (overflow, or no
  terminating byte).
\<close>

theorem position_of_codeword:
  assumes "0 < length (BitArray bf)" and "length (BitArray bf) < 2 ^ 64"
  shows "\<exists>p. findPositions [c] (word_of_nat (length (BitArray bf))) = Inr [p] \<and>
             unat p = uvarint_value c mod length (BitArray bf) \<and>
             Add bf [c] = Inr (bf\<lparr>BitArray := (BitArray bf)[unat p := True]\<rparr>) \<and>
             Search bf [c] = Inr (BitArray bf ! unat p)"
proof -
  let ?m = "word_of_nat (length (BitArray bf)) :: 64 word"
  let ?p = "fst (Uvarint c) mod ?m"
  have um: "unat ?m = length (BitArray bf)"
    using assms(2) by (rule unat_of_nat_small)
  with assms(1) have nz: "?m \<noteq> 0" by (metis less_numeral_extra(3) unat_0)
  then have f: "findPositions [c] ?m = Inr [?p]" by simp
  have up: "unat ?p = uvarint_value c mod length (BitArray bf)"
    by (simp only: unat_mod um unat_Uvarint)
  with assms(1) have lt: "unat ?p < length (BitArray bf)" by simp
  then have a: "Add bf [c] = Inr (bf\<lparr>BitArray := (BitArray bf)[unat ?p := True]\<rparr>)"
    unfolding Add_def f by simp
  from lt have s: "Search bf [c] = Inr (BitArray bf ! unat ?p)"
    unfolding Search_def f by simp
  from f up a s show ?thesis by blast
qed

theorem position_of_codeword_witness:
  "0 < length (BitArray \<lparr>BitArray = replicate 10 False\<rparr>) \<and>
   length (BitArray \<lparr>BitArray = replicate 10 False\<rparr>) < 2 ^ 64 \<and>
   uvarint_value [0x80, 0x01, 0x55] = 128 \<and>
   (\<exists>p. findPositions [[0x80, 0x01, 0x55]] 10 = Inr [p] \<and> unat p = 8 \<and>
        Add \<lparr>BitArray = replicate 10 False\<rparr> [[0x80, 0x01, 0x55]] =
          Inr \<lparr>BitArray = (replicate 10 False)[8 := True]\<rparr> \<and>
        Search \<lparr>BitArray = replicate 10 False\<rparr> [[0x80, 0x01, 0x55]] = Inr False)"
proof -
  have v: "uvarint_value [0x80, 0x01, 0x55] = 128"
    by (simp add: uvarint_value_def)
  have l: "0 < length (BitArray \<lparr>BitArray = replicate 10 False\<rparr>)"
    and u: "length (BitArray \<lparr>BitArray = replicate 10 False\<rparr>) < 2 ^ 64"
    by simp_all
  from position_of_codeword [OF l u, of "[0x80, 0x01, 0x55]"] v l u show ?thesis
    by auto
qed

end
